theory Spec2Isabelle
  imports Main
begin

section \<open>The memory model of \<open>sjtu::vector\<close>\<close>

text \<open>
  The class template \<open>sjtu::vector<T>\<close> of \<open>src/vector.hpp\<close> keeps three fields
  (\<open>data_\<close>, \<open>sz_\<close>, \<open>cap_\<close>, here without the underscore) and a raw buffer obtained from the global allocation
  function. The embedding keeps the same shape:

  \<^item> a vector object is a record of its three fields and lives at an address (\<open>vid\<close>);
  \<^item> a buffer is a block of slots, each slot either holding a constructed element
    (\<open>Some x\<close>) or being raw storage (\<open>None\<close>); the null pointer is address \<open>0\<close>;
  \<^item> every member function is a function from the world before the call to an outcome
    and the world after it; an exception is the outcome \<open>Throws\<close>, and an access the
    C++ standard leaves undefined (reading a raw slot, indexing outside a block, freeing
    a pointer that is not a live block, a loop that never ends without side effect) is
    the outcome \<open>Undefined\<close>;
  \<^item> the element type \<open>T\<close> is a parameter of the template. Its copy constructor and
    copy assignment copy the value when they succeed and may throw; which of the coming
    operations of \<open>T\<close> throw is the schedule \<open>T_throws\<close> of the world (the head of the
    list decides the next operation, the empty list means that none throws any more).
    Its destructor does not throw;
  \<^item> the world records every allocation, release, construction, assignment and
    destruction that succeeded in \<open>trace\<close>, in the order they happened.

  Values of type \<open>size_t\<close> are natural numbers: a wrap-around of \<open>sz + 1\<close> or of
  \<open>ncap <<= 1\<close> needs a buffer of at least \<open>2^63\<close> elements, which no allocation
  provides.
\<close>

datatype exn = index_out_of_bound | container_is_empty | invalid_iterator | bad_alloc | T_exception

datatype 'r outcome = Returns 'r | Throws exn | Undefined

type_synonym ptr = nat
type_synonym vid = nat

record vector =
  data :: ptr
  sz :: nat
  cap :: nat

datatype event = Alloc ptr nat | Free ptr | Construct ptr nat | Assign ptr nat | Destroy ptr nat

record 'a world =
  objs :: "vid \<Rightarrow> vector"
  blocks :: "ptr \<Rightarrow> 'a option list option"
  last_ptr :: ptr
  avail :: nat
  T_throws :: "bool list"
  trace :: "event list"

type_synonym ('a, 'r) prog = "'a world \<Rightarrow> 'r outcome \<times> 'a world"

definition returns :: "'r \<Rightarrow> ('a, 'r) prog" where
  "returns r w = (Returns r, w)"

definition throw :: "exn \<Rightarrow> ('a, 'r) prog" where
  "throw e w = (Throws e, w)"

definition bnd :: "('a, 'r) prog \<Rightarrow> ('r \<Rightarrow> ('a, 'q) prog) \<Rightarrow> ('a, 'q) prog" where
  "bnd f g w =
     (case f w of
        (Returns r, w') \<Rightarrow> g r w'
      | (Throws e, w') \<Rightarrow> (Throws e, w')
      | (Undefined, w') \<Rightarrow> (Undefined, w'))"

text \<open>A write to the fields of the object at \<open>this\<close>.\<close>

definition upd :: "vid \<Rightarrow> (vector \<Rightarrow> vector) \<Rightarrow> 'a world \<Rightarrow> 'a world" where
  "upd this f w = w\<lparr>objs := (objs w)(this := f (objs w this))\<rparr>"

subsection \<open>The allocation functions and the operations of \<open>T\<close>\<close>

text \<open>
  \<open>raw_alloc(n)\<close> is \<open>(T * )::operator new(n * sizeof(T))\<close>. The global \<open>operator new\<close>
  throws \<open>std::bad_alloc\<close> when it has no storage for the request and returns a
  non-null pointer to fresh storage otherwise, also for a request of zero bytes. The
  model counts storage in slots: \<open>avail\<close> is what is left, and the pointer handed out is
  the one after the last one handed out. The byte count \<open>n * sizeof(T)\<close> is computed in
  \<open>size_t\<close>; the model is of the requests for which this product does not wrap. These
  are all the requests of the class: the copy constructor asks for the size of a vector
  whose buffer exists, and \<open>ensure_capacity(sz + 1)\<close> for one slot or for twice the
  capacity of such a buffer (see the note on \<open>size_t\<close> above).
\<close>

definition raw_alloc :: "nat \<Rightarrow> ('a, ptr) prog" where
  "raw_alloc n w =
     (if avail w < n then (Throws bad_alloc, w)
      else (Returns (Suc (last_ptr w)),
            w\<lparr>blocks := (blocks w)(Suc (last_ptr w) \<mapsto> replicate n None),
              last_ptr := Suc (last_ptr w),
              avail := avail w - n,
              trace := trace w @ [Alloc (Suc (last_ptr w)) n]\<rparr>))"

text \<open>\<open>raw_free(p)\<close> is \<open>::operator delete(p)\<close>, which does nothing on the null pointer.\<close>

definition raw_free :: "ptr \<Rightarrow> ('a, unit) prog" where
  "raw_free p w =
     (if p = 0 then (Returns (), w)
      else case blocks w p of
        None \<Rightarrow> (Undefined, w)
      | Some b \<Rightarrow>
          (Returns (),
           w\<lparr>blocks := (blocks w)(p := None),
             avail := avail w + length b,
             trace := trace w @ [Free p]\<rparr>))"

text \<open>One copy construction or copy assignment of \<open>T\<close> consults the schedule.\<close>

definition T_op :: "('a, unit) prog" where
  "T_op w =
     (case T_throws w of
        [] \<Rightarrow> (Returns (), w)
      | b # bs \<Rightarrow> (if b then Throws T_exception else Returns (), w\<lparr>T_throws := bs\<rparr>))"

text \<open>Reading the element \<open>p[i]\<close>.\<close>

definition elem :: "ptr \<Rightarrow> nat \<Rightarrow> ('a, 'a) prog" where
  "elem p i w =
     (case blocks w p of
        None \<Rightarrow> (Undefined, w)
      | Some b \<Rightarrow>
          (if i < length b then
             (case b ! i of None \<Rightarrow> (Undefined, w) | Some x \<Rightarrow> (Returns x, w))
           else (Undefined, w)))"

text \<open>
  A parameter of type \<open>const T &\<close> is a reference: to an object outside every buffer,
  whose value the call cannot change, or to a slot of a buffer, read when it is used.
\<close>

datatype 'a cref = Outside 'a | Slot ptr nat

definition deref :: "'a cref \<Rightarrow> ('a, 'a) prog" where
  "deref r w = (case r of Outside x \<Rightarrow> (Returns x, w) | Slot p i \<Rightarrow> elem p i w)"

text \<open>\<open>new (p + i) T(x)\<close>: placement construction of a copy of \<open>x\<close> in slot \<open>i\<close>.\<close>

definition construct_at :: "ptr \<Rightarrow> nat \<Rightarrow> 'a \<Rightarrow> ('a, unit) prog" where
  "construct_at p i x w =
     (case blocks w p of
        None \<Rightarrow> (Undefined, w)
      | Some b \<Rightarrow>
          (if i < length b then
             bnd T_op (\<lambda>_ w'. (Returns (),
               w'\<lparr>blocks := (blocks w')(p \<mapsto> b[i := Some x]),
                  trace := trace w' @ [Construct p i]\<rparr>)) w
           else (Undefined, w)))"

text \<open>
  \<open>p[i] = x\<close>: copy assignment to the live element in slot \<open>i\<close>. An assignment that
  throws leaves the slot as it was.
\<close>

definition assign_at :: "ptr \<Rightarrow> nat \<Rightarrow> 'a \<Rightarrow> ('a, unit) prog" where
  "assign_at p i x w =
     (case blocks w p of
        None \<Rightarrow> (Undefined, w)
      | Some b \<Rightarrow>
          (if i < length b \<and> b ! i \<noteq> None then
             bnd T_op (\<lambda>_ w'. (Returns (),
               w'\<lparr>blocks := (blocks w')(p \<mapsto> b[i := Some x]),
                  trace := trace w' @ [Assign p i]\<rparr>)) w
           else (Undefined, w)))"

text \<open>\<open>p[i].~T()\<close>: the slot is raw storage afterwards.\<close>

definition destroy_at :: "ptr \<Rightarrow> nat \<Rightarrow> ('a, unit) prog" where
  "destroy_at p i w =
     (case blocks w p of
        None \<Rightarrow> (Undefined, w)
      | Some b \<Rightarrow>
          (if i < length b \<and> b ! i \<noteq> None then
             (Returns (),
              w\<lparr>blocks := (blocks w)(p \<mapsto> b[i := None]),
                trace := trace w @ [Destroy p i]\<rparr>)
           else (Undefined, w)))"

subsection \<open>The loops\<close>

text \<open>\<open>while (ncap < need) ncap <<= 1;\<close> It does not end when \<open>ncap\<close> is \<open>0\<close>.\<close>

partial_function (option) grow :: "nat \<Rightarrow> nat \<Rightarrow> nat option" where
  "grow ncap need = (if ncap < need then grow (ncap * 2) need else Some ncap)"

declare grow.simps [code]

text \<open>
  \<open>for (; i < n; ++i) new (nd + i) T(d[i]);\<close> inside a \<open>try\<close> block whose handler uses
  \<open>i\<close>: the loop returns the index it stopped at with its outcome.
\<close>

function copy_loop :: "ptr \<Rightarrow> ptr \<Rightarrow> nat \<Rightarrow> nat \<Rightarrow> 'a world \<Rightarrow> nat \<times> unit outcome \<times> 'a world" where
  "copy_loop nd d i n w =
     (if i < n then
        (case bnd (elem d i) (construct_at nd i) w of
           (Returns _, w') \<Rightarrow> copy_loop nd d (Suc i) n w'
         | (Throws e, w') \<Rightarrow> (i, Throws e, w')
         | (Undefined, w') \<Rightarrow> (i, Undefined, w'))
      else (i, Returns (), w))"
  by pat_completeness auto
termination
  by (relation "measure (\<lambda>(nd, d, i, n, w). n - i)") auto

text \<open>\<open>for (size_t j = 0; j < n; ++j) p[j].~T();\<close>\<close>

function destroy_loop :: "ptr \<Rightarrow> nat \<Rightarrow> nat \<Rightarrow> ('a, unit) prog" where
  "destroy_loop p j n w =
     (if j < n then
        (case destroy_at p j w of
           (Returns _, w') \<Rightarrow> destroy_loop p (Suc j) n w'
         | (Throws e, w') \<Rightarrow> (Throws e, w')
         | (Undefined, w') \<Rightarrow> (Undefined, w'))
      else (Returns (), w))"
  by pat_completeness auto
termination
  by (relation "measure (\<lambda>(p, j, n, w). n - j)") auto

text \<open>\<open>for (size_t i = sz - 1; i > ind; --i) data[i] = data[i - 1];\<close>\<close>

function shift_right :: "ptr \<Rightarrow> nat \<Rightarrow> nat \<Rightarrow> ('a, unit) prog" where
  "shift_right p i ind w =
     (if i > ind then
        (case bnd (elem p (i - 1)) (assign_at p i) w of
           (Returns _, w') \<Rightarrow> shift_right p (i - 1) ind w'
         | (Throws e, w') \<Rightarrow> (Throws e, w')
         | (Undefined, w') \<Rightarrow> (Undefined, w'))
      else (Returns (), w))"
  by pat_completeness auto
termination
  by (relation "measure (\<lambda>(p, i, ind, w). i)") auto

text \<open>\<open>for (size_t i = ind; i + 1 < sz; ++i) data[i] = data[i + 1];\<close>\<close>

function shift_left :: "ptr \<Rightarrow> nat \<Rightarrow> nat \<Rightarrow> ('a, unit) prog" where
  "shift_left p i n w =
     (if i + 1 < n then
        (case bnd (elem p (i + 1)) (assign_at p i) w of
           (Returns _, w') \<Rightarrow> shift_left p (Suc i) n w'
         | (Throws e, w') \<Rightarrow> (Throws e, w')
         | (Undefined, w') \<Rightarrow> (Undefined, w'))
      else (Returns (), w))"
  by pat_completeness auto
termination
  by (relation "measure (\<lambda>(p, i, n, w). n - i)") auto

declare copy_loop.simps [simp del] destroy_loop.simps [simp del]
  shift_right.simps [simp del] shift_left.simps [simp del]

section \<open>The member functions of \<open>vector\<close>\<close>

text \<open>A cursor: the address of the vector it belongs to (\<open>None\<close> is the null pointer) and an index.\<close>

record iterator =
  owner :: "vid option"
  idx :: nat

definition ensure_capacity :: "vid \<Rightarrow> nat \<Rightarrow> ('a, unit) prog" where
  "ensure_capacity this need w =
     (if need \<le> cap (objs w this) then (Returns (), w)
      else case grow (if cap (objs w this) \<noteq> 0 then cap (objs w this) else 1) need of
        None \<Rightarrow> (Undefined, w)
      | Some ncap \<Rightarrow>
          bnd (raw_alloc ncap) (\<lambda>nd w1.
            case copy_loop nd (data (objs w1 this)) 0 (sz (objs w1 this)) w1 of
              (i, Throws e, w2) \<Rightarrow>
                bnd (destroy_loop nd 0 i) (\<lambda>_. bnd (raw_free nd) (\<lambda>_. throw e)) w2
            | (i, Undefined, w2) \<Rightarrow> (Undefined, w2)
            | (i, Returns _, w2) \<Rightarrow>
                bnd (destroy_loop (data (objs w2 this)) 0 (sz (objs w2 this))) (\<lambda>_.
                bnd (raw_free (data (objs w2 this))) (\<lambda>_ w3.
                  (Returns (), upd this (\<lambda>v. v\<lparr>data := nd, cap := ncap\<rparr>) w3))) w2) w)"

text \<open>\<open>vector() = default\<close>, with the default member initialisers.\<close>

definition vector_default :: "vid \<Rightarrow> ('a, unit) prog" where
  "vector_default this w = (Returns (), upd this (\<lambda>v. v\<lparr>data := 0, sz := 0, cap := 0\<rparr>) w)"

text \<open>\<open>vector(const vector &other)\<close>, constructing the object at \<open>this\<close>.\<close>

definition vector_copy :: "vid \<Rightarrow> vid \<Rightarrow> ('a, unit) prog" where
  "vector_copy this other w0 =
     (let w = upd this (\<lambda>v. v\<lparr>data := 0, sz := 0, cap := 0\<rparr>) w0 in
      if sz (objs w other) \<noteq> 0 then
        bnd (raw_alloc (sz (objs w other))) (\<lambda>p w1.
          let w2 = upd this (\<lambda>v. v\<lparr>data := p, cap := sz (objs w1 other)\<rparr>) w1 in
          case copy_loop (data (objs w2 this)) (data (objs w2 other)) 0 (sz (objs w2 other)) w2 of
            (i, Throws e, w3) \<Rightarrow>
              bnd (destroy_loop (data (objs w3 this)) 0 i) (\<lambda>_.
              bnd (raw_free (data (objs w3 this))) (\<lambda>_ w4.
                (Throws e, upd this (\<lambda>v. v\<lparr>data := 0, cap := 0\<rparr>) w4))) w3
          | (i, Undefined, w3) \<Rightarrow> (Undefined, w3)
          | (i, Returns _, w3) \<Rightarrow>
              (Returns (), upd this (\<lambda>v. v\<lparr>sz := sz (objs w3 other)\<rparr>) w3)) w
      else (Returns (), w))"

definition clear :: "vid \<Rightarrow> ('a, unit) prog" where
  "clear this w =
     bnd (destroy_loop (data (objs w this)) 0 (sz (objs w this)))
       (\<lambda>_ w1. (Returns (), upd this (\<lambda>v. v\<lparr>sz := 0\<rparr>) w1)) w"

text \<open>\<open>~vector()\<close>\<close>

definition destructor :: "vid \<Rightarrow> ('a, unit) prog" where
  "destructor this =
     bnd (clear this) (\<lambda>_ w1.
       bnd (if data (objs w1 this) \<noteq> 0 then raw_free (data (objs w1 this)) else returns ())
         (\<lambda>_ w2. (Returns (), upd this (\<lambda>v. v\<lparr>data := 0, cap := 0\<rparr>) w2)) w1)"

definition vswap :: "vid \<Rightarrow> vid \<Rightarrow> ('a, unit) prog" where
  "vswap this rhs w =
     (let td = data (objs w this);
          w1 = upd this (\<lambda>v. v\<lparr>data := data (objs w rhs)\<rparr>) w;
          w2 = upd rhs (\<lambda>v. v\<lparr>data := td\<rparr>) w1;
          ts = sz (objs w2 this);
          w3 = upd this (\<lambda>v. v\<lparr>sz := sz (objs w2 rhs)\<rparr>) w2;
          w4 = upd rhs (\<lambda>v. v\<lparr>sz := ts\<rparr>) w3;
          tc = cap (objs w4 this);
          w5 = upd this (\<lambda>v. v\<lparr>cap := cap (objs w4 rhs)\<rparr>) w4;
          w6 = upd rhs (\<lambda>v. v\<lparr>cap := tc\<rparr>) w5
      in (Returns (), w6))"

text \<open>
  \<open>operator=\<close>. The local object \<open>tmp\<close> lives at an address of its own, which the model
  takes as an argument; it is destroyed when the function returns, and not at all when
  its constructor throws.
\<close>

definition operator_assign :: "vid \<Rightarrow> vid \<Rightarrow> vid \<Rightarrow> ('a, unit) prog" where
  "operator_assign this other tmp w =
     (if this = other then (Returns (), w)
      else bnd (vector_copy tmp other) (\<lambda>_. bnd (vswap this tmp) (\<lambda>_. destructor tmp)) w)"

text \<open>\<open>at\<close> and \<open>operator[]\<close> have the same body; they return a reference to the slot.\<close>

definition at :: "vid \<Rightarrow> nat \<Rightarrow> ('a, 'a cref) prog" where
  "at this pos w =
     (if pos \<ge> sz (objs w this) then throw index_out_of_bound w
      else (Returns (Slot (data (objs w this)) pos), w))"

definition vfront :: "vid \<Rightarrow> ('a, 'a cref) prog" where
  "vfront this w =
     (if sz (objs w this) = 0 then throw container_is_empty w
      else (Returns (Slot (data (objs w this)) 0), w))"

definition vback :: "vid \<Rightarrow> ('a, 'a cref) prog" where
  "vback this w =
     (if sz (objs w this) = 0 then throw container_is_empty w
      else (Returns (Slot (data (objs w this)) (sz (objs w this) - 1)), w))"

definition vbegin :: "vid \<Rightarrow> ('a, iterator) prog" where
  "vbegin this w = (Returns \<lparr>owner = Some this, idx = 0\<rparr>, w)"

definition vend :: "vid \<Rightarrow> ('a, iterator) prog" where
  "vend this w = (Returns \<lparr>owner = Some this, idx = sz (objs w this)\<rparr>, w)"

definition vempty :: "vid \<Rightarrow> ('a, bool) prog" where
  "vempty this w = (Returns (sz (objs w this) = 0), w)"

definition vsize :: "vid \<Rightarrow> ('a, nat) prog" where
  "vsize this w = (Returns (sz (objs w this)), w)"

text \<open>\<open>iterator::operator==\<close>\<close>

definition iterator_eq :: "iterator \<Rightarrow> iterator \<Rightarrow> bool" where
  "iterator_eq a rhs = (owner a = owner rhs \<and> idx a = idx rhs)"

definition insert_idx :: "vid \<Rightarrow> nat \<Rightarrow> 'a cref \<Rightarrow> ('a, iterator) prog" where
  "insert_idx this ind val w =
     (if ind > sz (objs w this) then throw index_out_of_bound w
      else
        bnd (ensure_capacity this (sz (objs w this) + 1)) (\<lambda>_ w1.
          if ind = sz (objs w1 this) then
            bnd (deref val) (\<lambda>x.
            bnd (construct_at (data (objs w1 this)) (sz (objs w1 this)) x) (\<lambda>_ w2.
              (Returns \<lparr>owner = Some this, idx = ind\<rparr>,
               upd this (\<lambda>v. v\<lparr>sz := sz v + 1\<rparr>) w2))) w1
          else
            bnd (elem (data (objs w1 this)) (sz (objs w1 this) - 1)) (\<lambda>y.
            bnd (construct_at (data (objs w1 this)) (sz (objs w1 this)) y) (\<lambda>_.
            bnd (shift_right (data (objs w1 this)) (sz (objs w1 this) - 1) ind) (\<lambda>_.
            bnd (deref val) (\<lambda>x.
            bnd (assign_at (data (objs w1 this)) ind x) (\<lambda>_ w2.
              (Returns \<lparr>owner = Some this, idx = ind\<rparr>,
               upd this (\<lambda>v. v\<lparr>sz := sz v + 1\<rparr>) w2)))))) w1) w)"

definition insert_it :: "vid \<Rightarrow> iterator \<Rightarrow> 'a cref \<Rightarrow> ('a, iterator) prog" where
  "insert_it this pos val w =
     (if owner pos \<noteq> Some this then throw invalid_iterator w
      else insert_idx this (idx pos) val w)"

definition erase_it :: "vid \<Rightarrow> iterator \<Rightarrow> ('a, iterator) prog" where
  "erase_it this pos w =
     (if owner pos \<noteq> Some this \<or> idx pos \<ge> sz (objs w this) then throw invalid_iterator w
      else
        let ind = idx pos in
        if ind = sz (objs w this) - 1 then
          bnd (destroy_at (data (objs w this)) (sz (objs w this) - 1)) (\<lambda>_ w1.
            vend this (upd this (\<lambda>v. v\<lparr>sz := sz v - 1\<rparr>) w1)) w
        else
          bnd (shift_left (data (objs w this)) ind (sz (objs w this))) (\<lambda>_.
          bnd (destroy_at (data (objs w this)) (sz (objs w this) - 1)) (\<lambda>_ w1.
            (Returns \<lparr>owner = Some this, idx = ind\<rparr>,
             upd this (\<lambda>v. v\<lparr>sz := sz v - 1\<rparr>) w1))) w)"

definition erase_idx :: "vid \<Rightarrow> nat \<Rightarrow> ('a, iterator) prog" where
  "erase_idx this ind w =
     (if ind \<ge> sz (objs w this) then throw index_out_of_bound w
      else erase_it this \<lparr>owner = Some this, idx = ind\<rparr> w)"

definition push_back :: "vid \<Rightarrow> 'a cref \<Rightarrow> ('a, unit) prog" where
  "push_back this val w =
     bnd (ensure_capacity this (sz (objs w this) + 1)) (\<lambda>_ w1.
       bnd (deref val) (\<lambda>x.
       bnd (construct_at (data (objs w1 this)) (sz (objs w1 this)) x) (\<lambda>_ w2.
         (Returns (), upd this (\<lambda>v. v\<lparr>sz := sz v + 1\<rparr>) w2))) w1) w"

definition pop_back :: "vid \<Rightarrow> ('a, unit) prog" where
  "pop_back this w =
     (if sz (objs w this) = 0 then throw container_is_empty w
      else
        let w1 = upd this (\<lambda>v. v\<lparr>sz := sz v - 1\<rparr>) w in
        destroy_at (data (objs w1 this)) (sz (objs w1 this)) w1)"

section \<open>Abstraction and well-formed vectors\<close>

text \<open>The world in which no vector has been used: no block, every field zero.\<close>

definition initial_world :: "nat \<Rightarrow> bool list \<Rightarrow> 'a world" where
  "initial_world a plan =
     \<lparr>objs = (\<lambda>_. \<lparr>data = 0, sz = 0, cap = 0\<rparr>), blocks = (\<lambda>_. None), last_ptr = 0,
      avail = a, T_throws = plan, trace = []\<rparr>"

text \<open>The sequence a vector holds: the elements of the first \<open>sz\<close> slots of its buffer.\<close>

definition contents :: "vid \<Rightarrow> 'a world \<Rightarrow> 'a list" where
  "contents this w =
     (case blocks w (data (objs w this)) of
        None \<Rightarrow> []
      | Some b \<Rightarrow> map the (take (sz (objs w this)) b))"

text \<open>
  The representation invariant of one vector: \<open>sz \<le> cap\<close>; with capacity zero the
  buffer pointer is null; otherwise it points to a live block of \<open>cap\<close> slots handed out
  by the allocator, the first \<open>sz\<close> of which hold elements.
\<close>

definition wf :: "vid \<Rightarrow> 'a world \<Rightarrow> bool" where
  "wf this w =
     (sz (objs w this) \<le> cap (objs w this) \<and> data (objs w this) \<le> last_ptr w \<and>
      (if cap (objs w this) = 0 then data (objs w this) = 0
       else data (objs w this) \<noteq> 0 \<and>
         (case blocks w (data (objs w this)) of
            None \<Rightarrow> False
          | Some b \<Rightarrow> length b = cap (objs w this) \<and>
              list_all (\<lambda>s. s \<noteq> None) (take (sz (objs w this)) b))))"

text \<open>
  A notion for the proofs: the world \<open>w'\<close> differs from \<open>w\<close> at most in the block at \<open>p\<close>,
  in the storage left, in the schedule of \<open>T\<close> and in the trace.
\<close>

definition same_but :: "ptr \<Rightarrow> 'a world \<Rightarrow> 'a world \<Rightarrow> bool" where
  "same_but p w w' =
     (objs w' = objs w \<and> last_ptr w' = last_ptr w \<and> (\<forall>q. q \<noteq> p \<longrightarrow> blocks w' q = blocks w q))"

section \<open>Example worlds\<close>

text \<open>
  The vector at address \<open>0\<close> after \<open>push_back(1); push_back(2); push_back(3)\<close> from the
  empty vector, with storage for 100 elements and an element type that never throws
  (lemma \<open>three_reached\<close>): it holds \<open>[1, 2, 3]\<close> in a buffer of capacity 4.
\<close>

definition three :: "nat world" where
  "three =
     \<lparr>objs = (\<lambda>_. \<lparr>data = 0, sz = 0, cap = 0\<rparr>)(0 := \<lparr>data = 3, sz = 3, cap = 4\<rparr>),
      blocks = (\<lambda>_. None)(3 \<mapsto> [Some 1, Some 2, Some 3, None]),
      last_ptr = 3, avail = 96, T_throws = [],
      trace = [Alloc 1 1, Construct 1 0, Alloc 2 2, Construct 2 0, Destroy 1 0, Free 1,
        Construct 2 1, Alloc 3 4, Construct 3 0, Construct 3 1, Destroy 2 0, Destroy 2 1,
        Free 2, Construct 3 2]\<rparr>"

text \<open>The same vector with an element type whose second copy from now on throws.\<close>

definition three_failing :: "nat world" where
  "three_failing = three\<lparr>T_throws := [False, True]\<rparr>"

text \<open>A notion for the proofs: every exception the program \<open>f\<close> throws is one of \<open>S\<close>.\<close>

definition throws_in :: "exn set \<Rightarrow> ('a, 'r) prog \<Rightarrow> bool" where
  "throws_in S f = (\<forall>w e. fst (f w) = Throws e \<longrightarrow> e \<in> S)"

text \<open>
  Two vectors, \<open>[1, 2, 3]\<close> at address \<open>0\<close> and \<open>[7]\<close> at address \<open>2\<close>, and an element
  type whose second copy from now on throws.
\<close>

definition two_failing :: "nat world" where
  "two_failing =
     \<lparr>objs = (\<lambda>_. \<lparr>data = 0, sz = 0, cap = 0\<rparr>)
        (0 := \<lparr>data = 3, sz = 3, cap = 4\<rparr>, 2 := \<lparr>data = 4, sz = 1, cap = 1\<rparr>),
      blocks = (\<lambda>_. None)(3 \<mapsto> [Some 1, Some 2, Some 3, None], 4 \<mapsto> [Some 7]),
      last_ptr = 4, avail = 95, T_throws = [False, True], trace = []\<rparr>"

section \<open>Client programs\<close>

text \<open>
  The invariants of the data model are about every vector a client can reach. A client
  program is a list of statements over the vectors it has declared, which are numbered
  in the order of their declaration (the state counts them). The client catches an
  exception and carries on with the world the call left; undefined behaviour, or a
  statement that names a vector not declared, ends the run with \<open>None\<close>. The local
  object of \<open>operator=\<close> lives at the first address no declared vector has.
\<close>

datatype 'a stmt =
    Decl
  | DeclCopy vid
  | CopyAssign vid vid
  | Swap vid vid
  | PushBack vid "'a cref"
  | PopBack vid
  | InsertAt vid nat "'a cref"
  | InsertIt vid iterator "'a cref"
  | EraseAt vid nat
  | EraseIt vid iterator
  | Clear vid

definition finish :: "nat \<Rightarrow> 'r outcome \<times> 'a world \<Rightarrow> (nat \<times> 'a world) option" where
  "finish k rw =
     (case rw of
        (Returns _, w') \<Rightarrow> Some (k, w')
      | (Throws _, w') \<Rightarrow> Some (k, w')
      | (Undefined, _) \<Rightarrow> None)"

fun exec :: "'a stmt \<Rightarrow> nat \<times> 'a world \<Rightarrow> (nat \<times> 'a world) option" where
  "exec Decl (k, w) = finish (Suc k) (vector_default k w)"
| "exec (DeclCopy other) (k, w) =
     (if other < k then
        (case vector_copy k other w of
           (Returns _, w') \<Rightarrow> Some (Suc k, w')
         | (Throws _, w') \<Rightarrow> Some (k, w')
         | (Undefined, _) \<Rightarrow> None)
      else None)"
| "exec (CopyAssign x other) (k, w) =
     (if x < k \<and> other < k then finish k (operator_assign x other k w) else None)"
| "exec (Swap x rhs) (k, w) = (if x < k \<and> rhs < k then finish k (vswap x rhs w) else None)"
| "exec (PushBack x v) (k, w) = (if x < k then finish k (push_back x v w) else None)"
| "exec (PopBack x) (k, w) = (if x < k then finish k (pop_back x w) else None)"
| "exec (InsertAt x ind v) (k, w) = (if x < k then finish k (insert_idx x ind v w) else None)"
| "exec (InsertIt x pos v) (k, w) = (if x < k then finish k (insert_it x pos v w) else None)"
| "exec (EraseAt x ind) (k, w) = (if x < k then finish k (erase_idx x ind w) else None)"
| "exec (EraseIt x pos) (k, w) = (if x < k then finish k (erase_it x pos w) else None)"
| "exec (Clear x) (k, w) = (if x < k then finish k (clear x w) else None)"

fun run :: "'a stmt list \<Rightarrow> nat \<times> 'a world \<Rightarrow> (nat \<times> 'a world) option" where
  "run [] s = Some s"
| "run (c # cs) s = (case exec c s of None \<Rightarrow> None | Some s' \<Rightarrow> run cs s')"

fun copies :: "'a stmt \<Rightarrow> bool" where
  "copies (DeclCopy _) = True"
| "copies (CopyAssign _ _) = True"
| "copies _ = False"

text \<open>The invariants of the fields of one vector.\<close>

definition fields_ok :: "vector \<Rightarrow> bool" where
  "fields_ok v = (sz v \<le> cap v \<and> (data v = 0) = (cap v = 0))"

definition pow2_cap :: "vector \<Rightarrow> bool" where
  "pow2_cap v = (cap v = 0 \<or> (\<exists>j. cap v = 2 ^ j))"

text \<open>A notion for the proofs: the program \<open>f\<close> writes no field of any vector.\<close>

definition pres :: "('a, 'r) prog \<Rightarrow> bool" where
  "pres f = (\<forall>w. objs (snd (f w)) = objs w)"

text \<open>
  A notion for the proofs: the program \<open>f\<close> writes no field, or it applies \<open>g\<close> to the
  fields of the vector at \<open>this\<close> and writes nothing else.
\<close>

definition eff :: "vid \<Rightarrow> (vector \<Rightarrow> vector) \<Rightarrow> ('a, 'r) prog \<Rightarrow> bool" where
  "eff this g f =
     (\<forall>w. objs (snd (f w)) = objs w \<or> objs (snd (f w)) = (objs w)(this := g (objs w this)))"

text \<open>
  Two client programs: the one that leads to the world \<open>three\<close>, and the same followed
  by a copy construction, which leads to \<open>three_copied\<close>.
\<close>

definition push_program :: "nat stmt list" where
  "push_program = [Decl, PushBack 0 (Outside 1), PushBack 0 (Outside 2), PushBack 0 (Outside 3)]"

definition copy_program :: "nat stmt list" where
  "copy_program = push_program @ [DeclCopy 0]"

definition three_copied :: "nat world" where
  "three_copied =
     three\<lparr>objs := (objs three)(1 := \<lparr>data = 4, sz = 3, cap = 3\<rparr>),
       blocks := (blocks three)(4 \<mapsto> [Some 1, Some 2, Some 3]),
       last_ptr := 4, avail := 93,
       trace := trace three @ [Alloc 4 3, Construct 4 0, Construct 4 1, Construct 4 2]\<rparr>"

section \<open>The allocations of a run\<close>





section \<open>Facts about the primitives and the loops\<close>

lemma bnd_Returns: "f w = (Returns r, w') \<Longrightarrow> bnd f g w = g r w'"
  by (simp add: bnd_def)

lemma bnd_Throws: "f w = (Throws e, w') \<Longrightarrow> bnd f g w = (Throws e, w')"
  by (simp add: bnd_def)

lemma bnd_Undefined: "f w = (Undefined, w') \<Longrightarrow> bnd f g w = (Undefined, w')"
  by (simp add: bnd_def)

lemma T_op_Nil: "T_throws w = [] \<Longrightarrow> T_op w = (Returns (), w)"
  by (simp add: T_op_def)

lemma T_op_False: "T_throws w = False # bs \<Longrightarrow> T_op w = (Returns (), w\<lparr>T_throws := bs\<rparr>)"
  by (simp add: T_op_def)

lemma T_op_True: "T_throws w = True # bs \<Longrightarrow> T_op w = (Throws T_exception, w\<lparr>T_throws := bs\<rparr>)"
  by (simp add: T_op_def)

lemma elem_ok:
  "blocks w p = Some b \<Longrightarrow> i < length b \<Longrightarrow> b ! i = Some x \<Longrightarrow> elem p i w = (Returns x, w)"
  by (simp add: elem_def)

lemma construct_at_ok:
  "blocks w p = Some b \<Longrightarrow> i < length b \<Longrightarrow> T_throws w = [] \<Longrightarrow>
   construct_at p i x w =
     (Returns (), w\<lparr>blocks := (blocks w)(p \<mapsto> b[i := Some x]), trace := trace w @ [Construct p i]\<rparr>)"
  by (simp add: construct_at_def bnd_def T_op_def)

lemma construct_at_False:
  "blocks w p = Some b \<Longrightarrow> i < length b \<Longrightarrow> T_throws w = False # bs \<Longrightarrow>
   construct_at p i x w =
     (Returns (), w\<lparr>blocks := (blocks w)(p \<mapsto> b[i := Some x]), T_throws := bs,
        trace := trace w @ [Construct p i]\<rparr>)"
  by (simp add: construct_at_def bnd_def T_op_def)

lemma construct_at_True:
  "blocks w p = Some b \<Longrightarrow> i < length b \<Longrightarrow> T_throws w = True # bs \<Longrightarrow>
   construct_at p i x w = (Throws T_exception, w\<lparr>T_throws := bs\<rparr>)"
  by (simp add: construct_at_def bnd_def T_op_def)

lemma assign_at_ok:
  "blocks w p = Some b \<Longrightarrow> i < length b \<Longrightarrow> b ! i \<noteq> None \<Longrightarrow> T_throws w = [] \<Longrightarrow>
   assign_at p i x w =
     (Returns (), w\<lparr>blocks := (blocks w)(p \<mapsto> b[i := Some x]), trace := trace w @ [Assign p i]\<rparr>)"
  by (simp add: assign_at_def bnd_def T_op_def)

lemma destroy_at_ok:
  "blocks w p = Some b \<Longrightarrow> i < length b \<Longrightarrow> b ! i \<noteq> None \<Longrightarrow>
   destroy_at p i w =
     (Returns (), w\<lparr>blocks := (blocks w)(p \<mapsto> b[i := None]), trace := trace w @ [Destroy p i]\<rparr>)"
  by (simp add: destroy_at_def)

lemma copy_slots_step:
  "i < n \<Longrightarrow> n \<le> length dst \<Longrightarrow> n \<le> length src \<Longrightarrow>
   take (Suc i) (dst[i := src ! i]) @ take (n - Suc i) (drop (Suc i) src) @ drop n (dst[i := src ! i])
   = take i dst @ take (n - i) (drop i src) @ drop n dst"
proof -
  assume a: "i < n" "n \<le> length dst" "n \<le> length src"
  have 1: "take (Suc i) (dst[i := src ! i]) = take i dst @ [src ! i]"
    using a by (simp add: take_Suc_conv_app_nth)
  have 2: "drop n (dst[i := src ! i]) = drop n dst"
    using a by simp
  have 3: "take (n - i) (drop i src) = src ! i # take (n - Suc i) (drop (Suc i) src)"
    using a by (simp add: Cons_nth_drop_Suc [symmetric] take_Suc_Cons [symmetric] Suc_diff_Suc del: take_Suc_Cons)
  show ?thesis by (simp add: 1 2 3)
qed

lemma copy_loop_ok:
  "k = n - i \<Longrightarrow> blocks w d = Some src \<Longrightarrow> blocks w nd = Some dst \<Longrightarrow> nd \<noteq> d \<Longrightarrow>
   n \<le> length src \<Longrightarrow> n \<le> length dst \<Longrightarrow> i \<le> n \<Longrightarrow> \<forall>j<n. src ! j \<noteq> None \<Longrightarrow>
   T_throws w = [] \<Longrightarrow>
   copy_loop nd d i n w =
     (n, Returns (),
      w\<lparr>blocks := (blocks w)(nd \<mapsto> take i dst @ take (n - i) (drop i src) @ drop n dst),
        trace := trace w @ map (Construct nd) [i..<n]\<rparr>)"
proof (induction k arbitrary: i w dst)
  case 0
  then have "i = n" by simp
  with 0 show ?case by (simp add: copy_loop.simps [of nd d n n] map_upd_triv)
next
  case (Suc k)
  then have lt: "i < n" by simp
  with Suc.prems obtain x where x: "src ! i = Some x" by (metis option.exhaust)
  let ?w1 = "w\<lparr>blocks := (blocks w)(nd \<mapsto> dst[i := Some x]), trace := trace w @ [Construct nd i]\<rparr>"
  have e: "elem d i w = (Returns x, w)"
    using Suc.prems lt x by (simp add: elem_ok)
  have c: "construct_at nd i x w = (Returns (), ?w1)"
    using Suc.prems lt by (simp add: construct_at_ok)
  have step: "bnd (elem d i) (construct_at nd i) w = (Returns (), ?w1)"
    by (simp add: bnd_def e c)
  have ih: "copy_loop nd d (Suc i) n ?w1 =
     (n, Returns (),
      ?w1\<lparr>blocks := (blocks ?w1)(nd \<mapsto> take (Suc i) (dst[i := Some x]) @ take (n - Suc i) (drop (Suc i) src) @ drop n (dst[i := Some x])),
        trace := trace ?w1 @ map (Construct nd) [Suc i..<n]\<rparr>)"
    using Suc.prems lt by (intro Suc.IH) auto
  have l: "take (Suc i) (dst[i := Some x]) @ take (n - Suc i) (drop (Suc i) src) @ drop n (dst[i := Some x])
     = take i dst @ take (n - i) (drop i src) @ drop n dst"
    using copy_slots_step [of i n dst src] Suc.prems lt x by simp
  have "copy_loop nd d i n w = copy_loop nd d (Suc i) n ?w1"
    using lt by (subst copy_loop.simps) (simp add: step)
  also note ih [unfolded l]
  also have "?w1\<lparr>blocks := (blocks ?w1)(nd \<mapsto> take i dst @ take (n - i) (drop i src) @ drop n dst),
        trace := trace ?w1 @ map (Construct nd) [Suc i..<n]\<rparr> =
      w\<lparr>blocks := (blocks w)(nd \<mapsto> take i dst @ take (n - i) (drop i src) @ drop n dst),
        trace := trace w @ map (Construct nd) [i..<n]\<rparr>"
    using lt by (simp add: upt_conv_Cons)
  finally show ?case .
qed


lemma copy_loop_fail:
  "blocks w d = Some src \<Longrightarrow> blocks w nd = Some dst \<Longrightarrow> nd \<noteq> d \<Longrightarrow>
   n \<le> length src \<Longrightarrow> n \<le> length dst \<Longrightarrow> i + k < n \<Longrightarrow> \<forall>j<n. src ! j \<noteq> None \<Longrightarrow>
   T_throws w = replicate k False @ True # rest \<Longrightarrow>
   copy_loop nd d i n w =
     (i + k, Throws T_exception,
      w\<lparr>blocks := (blocks w)(nd \<mapsto> take i dst @ take k (drop i src) @ drop (i + k) dst),
        T_throws := rest,
        trace := trace w @ map (Construct nd) [i..<i + k]\<rparr>)"
proof (induction k arbitrary: i w dst)
  case 0
  then have lt: "i < n" by simp
  with 0 obtain x where x: "src ! i = Some x" by (metis option.exhaust)
  have e: "elem d i w = (Returns x, w)"
    using 0 lt x by (simp add: elem_ok)
  have c: "construct_at nd i x w = (Throws T_exception, w\<lparr>T_throws := rest\<rparr>)"
    using 0 lt by (simp add: construct_at_True)
  have step: "bnd (elem d i) (construct_at nd i) w = (Throws T_exception, w\<lparr>T_throws := rest\<rparr>)"
    by (simp add: bnd_def e c)
  have "copy_loop nd d i n w = (i, Throws T_exception, w\<lparr>T_throws := rest\<rparr>)"
    using lt by (subst copy_loop.simps) (simp add: step)
  also have "w\<lparr>T_throws := rest\<rparr> =
      w\<lparr>blocks := (blocks w)(nd \<mapsto> take i dst @ take 0 (drop i src) @ drop (i + 0) dst),
        T_throws := rest, trace := trace w @ map (Construct nd) [i..<i + 0]\<rparr>"
    using 0 by (simp add: map_upd_triv)
  finally show ?case by (simp only: add_0_right)
next
  case (Suc k)
  then have lt: "i < n" by simp
  with Suc.prems obtain x where x: "src ! i = Some x" by (metis option.exhaust)
  let ?w1 = "w\<lparr>blocks := (blocks w)(nd \<mapsto> dst[i := Some x]),
     T_throws := replicate k False @ True # rest, trace := trace w @ [Construct nd i]\<rparr>"
  have e: "elem d i w = (Returns x, w)"
    using Suc.prems lt x by (simp add: elem_ok)
  have c: "construct_at nd i x w = (Returns (), ?w1)"
    using Suc.prems lt by (simp add: construct_at_False)
  have step: "bnd (elem d i) (construct_at nd i) w = (Returns (), ?w1)"
    by (simp add: bnd_def e c)
  have ih: "copy_loop nd d (Suc i) n ?w1 =
     (Suc i + k, Throws T_exception,
      ?w1\<lparr>blocks := (blocks ?w1)(nd \<mapsto> take (Suc i) (dst[i := Some x]) @ take k (drop (Suc i) src) @ drop (Suc i + k) (dst[i := Some x])),
        T_throws := rest,
        trace := trace ?w1 @ map (Construct nd) [Suc i..<Suc i + k]\<rparr>)"
    using Suc.prems lt by (intro Suc.IH) auto
  have l: "take (Suc i) (dst[i := Some x]) @ take k (drop (Suc i) src) @ drop (Suc i + k) (dst[i := Some x])
     = take i dst @ take (Suc k) (drop i src) @ drop (i + Suc k) dst"
    using copy_slots_step [of i "i + Suc k" dst src] Suc.prems lt x by simp
  have "copy_loop nd d i n w = copy_loop nd d (Suc i) n ?w1"
    using lt by (subst copy_loop.simps) (simp add: step)
  also note ih [unfolded l]
  also have "?w1\<lparr>blocks := (blocks ?w1)(nd \<mapsto> take i dst @ take (Suc k) (drop i src) @ drop (i + Suc k) dst),
        T_throws := rest,
        trace := trace ?w1 @ map (Construct nd) [Suc i..<Suc i + k]\<rparr> =
      w\<lparr>blocks := (blocks w)(nd \<mapsto> take i dst @ take (Suc k) (drop i src) @ drop (i + Suc k) dst),
        T_throws := rest,
        trace := trace w @ map (Construct nd) [i..<i + Suc k]\<rparr>"
    by (cases w) (simp add: upt_conv_Cons)
  finally show ?case by (simp only: add_Suc add_Suc_right)
qed

lemma destroy_slots_step:
  "j < n \<Longrightarrow> n \<le> length b \<Longrightarrow>
   take (Suc j) (b[j := None]) @ replicate (n - Suc j) None @ drop n (b[j := None])
   = take j b @ replicate (n - j) None @ drop n b"
proof -
  assume a: "j < n" "n \<le> length b"
  have 1: "take (Suc j) (b[j := None]) = take j b @ [None]"
    using a by (simp add: take_Suc_conv_app_nth)
  have 2: "drop n (b[j := None]) = drop n b"
    using a by simp
  have 3: "replicate (n - j) None = (None :: 'a option) # replicate (n - Suc j) None"
    using a by (simp add: Suc_diff_Suc flip: replicate_Suc)
  show ?thesis by (simp add: 1 2 3)
qed

lemma destroy_loop_ok:
  "k = n - j \<Longrightarrow> blocks w p = Some b \<Longrightarrow> n \<le> length b \<Longrightarrow> j \<le> n \<Longrightarrow>
   \<forall>q. j \<le> q \<and> q < n \<longrightarrow> b ! q \<noteq> None \<Longrightarrow>
   destroy_loop p j n w =
     (Returns (),
      w\<lparr>blocks := (blocks w)(p \<mapsto> take j b @ replicate (n - j) None @ drop n b),
        trace := trace w @ map (Destroy p) [j..<n]\<rparr>)"
proof (induction k arbitrary: j w b)
  case 0
  then have "j = n" by simp
  with 0 show ?case by (simp add: destroy_loop.simps [of p n n] map_upd_triv)
next
  case (Suc k)
  then have lt: "j < n" by simp
  let ?w1 = "w\<lparr>blocks := (blocks w)(p \<mapsto> b[j := None]), trace := trace w @ [Destroy p j]\<rparr>"
  have step: "destroy_at p j w = (Returns (), ?w1)"
    using Suc.prems lt by (simp add: destroy_at_ok)
  have ih: "destroy_loop p (Suc j) n ?w1 =
     (Returns (),
      ?w1\<lparr>blocks := (blocks ?w1)(p \<mapsto> take (Suc j) (b[j := None]) @ replicate (n - Suc j) None @ drop n (b[j := None])),
        trace := trace ?w1 @ map (Destroy p) [Suc j..<n]\<rparr>)"
    using Suc.prems lt by (intro Suc.IH) auto
  have "destroy_loop p j n w = destroy_loop p (Suc j) n ?w1"
    using lt by (subst destroy_loop.simps) (simp add: step)
  also note ih [unfolded destroy_slots_step [OF lt Suc.prems(3)]]
  also have "?w1\<lparr>blocks := (blocks ?w1)(p \<mapsto> take j b @ replicate (n - j) None @ drop n b),
        trace := trace ?w1 @ map (Destroy p) [Suc j..<n]\<rparr> =
      w\<lparr>blocks := (blocks w)(p \<mapsto> take j b @ replicate (n - j) None @ drop n b),
        trace := trace w @ map (Destroy p) [j..<n]\<rparr>"
    using lt by (simp add: upt_conv_Cons)
  finally show ?case .
qed

lemma shift_right_step:
  "ind < i \<Longrightarrow> i < length b \<Longrightarrow>
   take (Suc ind) (b[i := b ! (i - 1)]) @ take (i - 1 - ind) (drop ind (b[i := b ! (i - 1)]))
     @ drop (Suc (i - 1)) (b[i := b ! (i - 1)])
   = take (Suc ind) b @ take (i - ind) (drop ind b) @ drop (Suc i) b"
proof -
  assume a: "ind < i" "i < length b"
  then obtain i' where i': "i = Suc i'" by (cases i) auto
  have 1: "take (Suc ind) (b[Suc i' := b ! i']) = take (Suc ind) b"
    using a i' by simp
  have 2: "take (i' - ind) (drop ind (b[Suc i' := b ! i'])) = take (i' - ind) (drop ind b)"
    using a i' by (simp add: drop_update_swap)
  have 3: "drop (Suc i') (b[Suc i' := b ! i']) = b ! i' # drop (Suc (Suc i')) b"
    using a i' by (simp add: Cons_nth_drop_Suc [symmetric])
  have 4: "take (Suc i' - ind) (drop ind b) = take (i' - ind) (drop ind b) @ [b ! i']"
    using a i' by (simp add: Suc_diff_le take_Suc_conv_app_nth)
  show ?thesis unfolding i' by (simp add: 1 2 3 4)
qed

lemma shift_right_ok:
  "k = i - ind \<Longrightarrow> blocks w p = Some b \<Longrightarrow> i < length b \<Longrightarrow> ind \<le> i \<Longrightarrow>
   \<forall>j\<le>i. b ! j \<noteq> None \<Longrightarrow> T_throws w = [] \<Longrightarrow>
   shift_right p i ind w =
     (Returns (),
      w\<lparr>blocks := (blocks w)(p \<mapsto> take (Suc ind) b @ take (i - ind) (drop ind b) @ drop (Suc i) b),
        trace := trace w @ map (Assign p) (rev [Suc ind..<Suc i])\<rparr>)"
proof (induction k arbitrary: i w b)
  case 0
  then have "i = ind" by simp
  with 0 show ?case by (simp add: shift_right.simps [of p ind ind] map_upd_triv)
next
  case (Suc k)
  then have lt: "ind < i" by simp
  with Suc.prems obtain y where y: "b ! (i - 1) = Some y" by (metis option.exhaust diff_le_self)
  let ?b1 = "b[i := b ! (i - 1)]"
  let ?w1 = "w\<lparr>blocks := (blocks w)(p \<mapsto> ?b1), trace := trace w @ [Assign p i]\<rparr>"
  have e: "elem p (i - 1) w = (Returns y, w)"
    using Suc.prems lt y by (simp add: elem_ok)
  have c: "assign_at p i y w = (Returns (), ?w1)"
    using Suc.prems lt y by (simp add: assign_at_ok)
  have step: "bnd (elem p (i - 1)) (assign_at p i) w = (Returns (), ?w1)"
    unfolding bnd_def e by (simp add: c)
  have live: "\<forall>j\<le>i - 1. ?b1 ! j \<noteq> None"
    using Suc.prems lt by (simp add: nth_list_update)
  have ih: "shift_right p (i - 1) ind ?w1 =
     (Returns (),
      ?w1\<lparr>blocks := (blocks ?w1)(p \<mapsto> take (Suc ind) ?b1 @ take (i - 1 - ind) (drop ind ?b1) @ drop (Suc (i - 1)) ?b1),
        trace := trace ?w1 @ map (Assign p) (rev [Suc ind..<Suc (i - 1)])\<rparr>)"
    using Suc.prems lt live by (intro Suc.IH) auto
  have "shift_right p i ind w = shift_right p (i - 1) ind ?w1"
    using lt by (subst shift_right.simps) (simp add: step [simplified])
  also note ih [unfolded shift_right_step [OF lt Suc.prems(3)]]
  also have "?w1\<lparr>blocks := (blocks ?w1)(p \<mapsto> take (Suc ind) b @ take (i - ind) (drop ind b) @ drop (Suc i) b),
        trace := trace ?w1 @ map (Assign p) (rev [Suc ind..<Suc (i - 1)])\<rparr> =
      w\<lparr>blocks := (blocks w)(p \<mapsto> take (Suc ind) b @ take (i - ind) (drop ind b) @ drop (Suc i) b),
        trace := trace w @ map (Assign p) (rev [Suc ind..<Suc i])\<rparr>"
    using lt by (cases w) simp
  finally show ?case .
qed

lemma shift_left_step:
  "Suc i < n \<Longrightarrow> n \<le> length b \<Longrightarrow>
   take (Suc i) (b[i := b ! Suc i]) @ take (n - 1 - Suc i) (drop (Suc (Suc i)) (b[i := b ! Suc i]))
     @ drop (n - 1) (b[i := b ! Suc i])
   = take i b @ take (n - 1 - i) (drop (Suc i) b) @ drop (n - 1) b"
proof -
  assume a: "Suc i < n" "n \<le> length b"
  have 1: "take (Suc i) (b[i := b ! Suc i]) = take i b @ [b ! Suc i]"
    using a by (simp add: take_Suc_conv_app_nth)
  have 2: "drop (Suc (Suc i)) (b[i := b ! Suc i]) = drop (Suc (Suc i)) b"
    by simp
  have 3: "drop (n - 1) (b[i := b ! Suc i]) = drop (n - 1) b"
    using a by simp
  have 4: "take (n - 1 - i) (drop (Suc i) b) = b ! Suc i # take (n - 1 - Suc i) (drop (Suc (Suc i)) b)"
  proof -
    have "n - 1 - i = Suc (n - 1 - Suc i)" using a by simp
    moreover have "drop (Suc i) b = b ! Suc i # drop (Suc (Suc i)) b"
      using a by (simp add: Cons_nth_drop_Suc)
    ultimately show ?thesis by simp
  qed
  show ?thesis by (simp only: 1 2 3 4) simp
qed

lemma shift_left_ok:
  "k = n - 1 - i \<Longrightarrow> blocks w p = Some b \<Longrightarrow> n \<le> length b \<Longrightarrow> i < n \<Longrightarrow>
   \<forall>j<n. b ! j \<noteq> None \<Longrightarrow> T_throws w = [] \<Longrightarrow>
   shift_left p i n w =
     (Returns (),
      w\<lparr>blocks := (blocks w)(p \<mapsto> take i b @ take (n - 1 - i) (drop (Suc i) b) @ drop (n - 1) b),
        trace := trace w @ map (Assign p) [i..<n - 1]\<rparr>)"
proof (induction k arbitrary: i w b)
  case 0
  then have i: "i = n - 1" by simp
  have "\<not> i + 1 < n" using i 0 by simp
  then show ?case using 0 i by (subst shift_left.simps) (simp add: map_upd_triv)
next
  case (Suc k)
  then have lt: "Suc i < n" by simp
  with Suc.prems obtain y where y: "b ! Suc i = Some y" by (metis option.exhaust)
  let ?b1 = "b[i := b ! Suc i]"
  let ?w1 = "w\<lparr>blocks := (blocks w)(p \<mapsto> ?b1), trace := trace w @ [Assign p i]\<rparr>"
  have e: "elem p (i + 1) w = (Returns y, w)"
    using Suc.prems lt y by (simp add: elem_ok)
  have c: "assign_at p i y w = (Returns (), ?w1)"
    using Suc.prems lt y by (simp add: assign_at_ok)
  have step: "bnd (elem p (i + 1)) (assign_at p i) w = (Returns (), ?w1)"
    by (simp add: bnd_def e [simplified] c)
  have live: "\<forall>j<n. ?b1 ! j \<noteq> None"
    using Suc.prems lt by (simp add: nth_list_update)
  have ih: "shift_left p (Suc i) n ?w1 =
     (Returns (),
      ?w1\<lparr>blocks := (blocks ?w1)(p \<mapsto> take (Suc i) ?b1 @ take (n - 1 - Suc i) (drop (Suc (Suc i)) ?b1) @ drop (n - 1) ?b1),
        trace := trace ?w1 @ map (Assign p) [Suc i..<n - 1]\<rparr>)"
    using Suc.prems lt live by (intro Suc.IH) auto
  have "shift_left p i n w = shift_left p (Suc i) n ?w1"
    using lt by (subst shift_left.simps) (simp add: step [simplified])
  also note ih [unfolded shift_left_step [OF lt Suc.prems(3)]]
  also have "?w1\<lparr>blocks := (blocks ?w1)(p \<mapsto> take i b @ take (n - 1 - i) (drop (Suc i) b) @ drop (n - 1) b),
        trace := trace ?w1 @ map (Assign p) [Suc i..<n - 1]\<rparr> =
      w\<lparr>blocks := (blocks w)(p \<mapsto> take i b @ take (n - 1 - i) (drop (Suc i) b) @ drop (n - 1) b),
        trace := trace w @ map (Assign p) [i..<n - 1]\<rparr>"
    using lt by (cases w) (simp add: upt_conv_Cons)
  finally show ?case .
qed

lemma grow_stop: "need \<le> n \<Longrightarrow> grow n need = Some n"
  by (subst grow.simps) simp

lemma grow_step: "n < need \<Longrightarrow> grow n need = grow (n * 2) need"
  by (subst grow.simps) simp

lemma grow_Some:
  "0 < n \<Longrightarrow> \<exists>k. grow n need = Some (n * 2 ^ k) \<and> need \<le> n * 2 ^ k \<and> (\<forall>j<k. n * 2 ^ j < need)"
proof (induction "need - n" arbitrary: n rule: less_induct)
  case less
  show ?case
  proof (cases "n < need")
    case False
    then have "grow n need = Some (n * 2 ^ 0) \<and> need \<le> n * 2 ^ 0 \<and> (\<forall>j<0. n * 2 ^ j < need)"
      by (simp add: grow_stop)
    then show ?thesis by blast
  next
    case True
    with less.prems have "need - n * 2 < need - n" by simp
    from less.hyps [OF this] less.prems
    obtain k where k: "grow (n * 2) need = Some (n * 2 * 2 ^ k)" "need \<le> n * 2 * 2 ^ k"
      "\<forall>j<k. n * 2 * 2 ^ j < need" by auto
    have "\<forall>j<Suc k. n * 2 ^ j < need"
    proof (intro allI impI)
      fix j assume "j < Suc k"
      then show "n * 2 ^ j < need"
        using True k(3) by (cases j) (auto simp: mult.assoc)
    qed
    with k True have "grow n need = Some (n * 2 ^ Suc k) \<and> need \<le> n * 2 ^ Suc k \<and> (\<forall>j<Suc k. n * 2 ^ j < need)"
      by (simp add: grow_step mult.assoc)
    then show ?thesis by blast
  qed
qed

subsection \<open>What the primitives and the loops leave alone\<close>

lemma same_but_refl: "same_but p w w"
  by (simp add: same_but_def)

lemma same_but_trans: "same_but p w w1 \<Longrightarrow> same_but p w1 w2 \<Longrightarrow> same_but p w w2"
  by (simp add: same_but_def)

lemma elem_world: "snd (elem p i w) = w"
  by (simp add: elem_def split: option.splits)

lemma deref_world: "snd (deref r w) = w"
  by (simp add: deref_def elem_world split: cref.splits)

lemma T_op_same: "same_but p w (snd (T_op w))"
  by (simp add: T_op_def same_but_def split: list.splits)

lemma construct_at_same: "same_but p w (snd (construct_at p i x w))"
  by (simp add: construct_at_def bnd_def T_op_def same_but_def split: option.splits list.splits)

lemma assign_at_same: "same_but p w (snd (assign_at p i x w))"
  by (simp add: assign_at_def bnd_def T_op_def same_but_def split: option.splits list.splits)

lemma destroy_at_same: "same_but p w (snd (destroy_at p i w))"
  by (simp add: destroy_at_def same_but_def split: option.splits)

lemma raw_free_same: "objs (snd (raw_free p w)) = objs w \<and> last_ptr (snd (raw_free p w)) = last_ptr w \<and>
    (\<forall>q. q \<noteq> p \<longrightarrow> blocks (snd (raw_free p w)) q = blocks w q)"
  by (simp add: raw_free_def split: option.splits)

lemma raw_free_no_throw: "fst (raw_free p w) \<noteq> Throws e"
  by (simp add: raw_free_def split: option.splits)

lemma destroy_at_no_throw: "fst (destroy_at p i w) \<noteq> Throws e"
  by (simp add: destroy_at_def split: option.splits)

lemma bnd_elem_same:
  assumes "\<And>x w. same_but p w (snd (f x w))"
  shows "same_but p w (snd (bnd (elem q i) f w))"
proof (cases "elem q i w")
  case (Pair r w1)
  then have "w1 = w" using elem_world [of q i w] by simp
  with Pair assms show ?thesis
    by (cases r) (simp_all add: bnd_def same_but_refl)
qed

lemma copy_loop_same: "same_but nd w (snd (snd (copy_loop nd d i n w)))"
proof (induction nd d i n w rule: copy_loop.induct)
  case (1 nd d i n w)
  show ?case
  proof (cases "i < n")
    case False
    then show ?thesis by (subst copy_loop.simps) (simp add: same_but_refl)
  next
    case True
    obtain r w1 where s: "bnd (elem d i) (construct_at nd i) w = (r, w1)" by (cases "bnd (elem d i) (construct_at nd i) w")
    have w1: "same_but nd w w1"
      using bnd_elem_same [of nd "construct_at nd i" w d i] s by (simp add: construct_at_same)
    show ?thesis
    proof (cases r)
      case (Returns u)
      have "same_but nd w1 (snd (snd (copy_loop nd d (Suc i) n w1)))"
        using "1.IH" [OF True s [symmetric] Returns] .
      with w1 have "same_but nd w (snd (snd (copy_loop nd d (Suc i) n w1)))"
        by (rule same_but_trans)
      then show ?thesis using True s Returns by (subst copy_loop.simps) simp
    next
      case (Throws e)
      then show ?thesis using True s w1 by (subst copy_loop.simps) simp
    next
      case Undefined
      then show ?thesis using True s w1 by (subst copy_loop.simps) simp
    qed
  qed
qed

lemma destroy_loop_same: "same_but p w (snd (destroy_loop p j n w))"
proof (induction p j n w rule: destroy_loop.induct)
  case (1 p j n w)
  show ?case
  proof (cases "j < n")
    case False
    then show ?thesis by (subst destroy_loop.simps) (simp add: same_but_refl)
  next
    case True
    obtain r w1 where s: "destroy_at p j w = (r, w1)" by (cases "destroy_at p j w")
    have w1: "same_but p w w1"
      using destroy_at_same [of p w j] s by simp
    show ?thesis
    proof (cases r)
      case (Returns u)
      have "same_but p w1 (snd (destroy_loop p (Suc j) n w1))"
        using "1.IH" [OF True s [symmetric] Returns] .
      with w1 have "same_but p w (snd (destroy_loop p (Suc j) n w1))"
        by (rule same_but_trans)
      then show ?thesis using True s Returns by (subst destroy_loop.simps) simp
    next
      case (Throws e)
      then show ?thesis using True s w1 by (subst destroy_loop.simps) simp
    next
      case Undefined
      then show ?thesis using True s w1 by (subst destroy_loop.simps) simp
    qed
  qed
qed

lemma destroy_loop_no_throw: "fst (destroy_loop p j n w) \<noteq> Throws e"
proof (induction p j n w rule: destroy_loop.induct)
  case (1 p j n w)
  show ?case
  proof (cases "j < n")
    case False
    then show ?thesis by (subst destroy_loop.simps) simp
  next
    case True
    obtain r w1 where s: "destroy_at p j w = (r, w1)" by (cases "destroy_at p j w")
    show ?thesis
    proof (cases r)
      case (Returns u)
      then show ?thesis
        using True s "1.IH" [OF True s [symmetric] Returns] by (subst destroy_loop.simps) simp
    next
      case (Throws e')
      then show ?thesis using s destroy_at_no_throw [of p j w e'] by simp
    next
      case Undefined
      then show ?thesis using True s by (subst destroy_loop.simps) simp
    qed
  qed
qed

lemma shift_right_same: "same_but p w (snd (shift_right p i ind w))"
proof (induction p i ind w rule: shift_right.induct)
  case (1 p i ind w)
  show ?case
  proof (cases "ind < i")
    case False
    then show ?thesis by (subst shift_right.simps) (simp add: same_but_refl)
  next
    case True
    obtain r w1 where s: "bnd (elem p (i - 1)) (assign_at p i) w = (r, w1)"
      by (cases "bnd (elem p (i - 1)) (assign_at p i) w")
    have w1: "same_but p w w1"
      using bnd_elem_same [of p "assign_at p i" w p "i - 1"] s by (simp add: assign_at_same)
    show ?thesis
    proof (cases r)
      case (Returns u)
      have "same_but p w1 (snd (shift_right p (i - 1) ind w1))"
        using "1.IH" [OF True s [symmetric] Returns] .
      with w1 have "same_but p w (snd (shift_right p (i - 1) ind w1))"
        by (rule same_but_trans)
      then show ?thesis using True s Returns by (subst shift_right.simps) (simp add: s [simplified])
    next
      case (Throws e)
      then show ?thesis using True s w1 by (subst shift_right.simps) (simp add: s [simplified])
    next
      case Undefined
      then show ?thesis using True s w1 by (subst shift_right.simps) (simp add: s [simplified])
    qed
  qed
qed

lemma shift_left_same: "same_but p w (snd (shift_left p i n w))"
proof (induction p i n w rule: shift_left.induct)
  case (1 p i n w)
  show ?case
  proof (cases "i + 1 < n")
    case False
    then show ?thesis by (subst shift_left.simps) (simp add: same_but_refl)
  next
    case True
    obtain r w1 where s: "bnd (elem p (i + 1)) (assign_at p i) w = (r, w1)"
      by (cases "bnd (elem p (i + 1)) (assign_at p i) w")
    have w1: "same_but p w w1"
      using bnd_elem_same [of p "assign_at p i" w p "i + 1"] s by (simp add: assign_at_same)
    show ?thesis
    proof (cases r)
      case (Returns u)
      have "same_but p w1 (snd (shift_left p (Suc i) n w1))"
        using "1.IH" [OF True s [symmetric] Returns] .
      with w1 have "same_but p w (snd (shift_left p (Suc i) n w1))"
        by (rule same_but_trans)
      then show ?thesis using True s Returns by (subst shift_left.simps) (simp add: s [simplified])
    next
      case (Throws e)
      then show ?thesis using True s w1 by (subst shift_left.simps) (simp add: s [simplified])
    next
      case Undefined
      then show ?thesis using True s w1 by (subst shift_left.simps) (simp add: s [simplified])
    qed
  qed
qed

subsection \<open>The fields after \<open>ensure_capacity\<close>, in any world\<close>

lemma teardown_frame:
  assumes "bnd (destroy_loop p 0 i) (\<lambda>_. bnd (raw_free p) (\<lambda>_. throw e)) w = (r, w')"
  shows "(\<forall>u. r \<noteq> Returns u) \<and> objs w' = objs w \<and> last_ptr w' = last_ptr w \<and>
     (\<forall>q. q \<noteq> p \<longrightarrow> blocks w' q = blocks w q)"
proof -
  obtain r1 w1 where d: "destroy_loop p 0 i w = (r1, w1)" by (cases "destroy_loop p 0 i w")
  obtain r2 w2 where f: "raw_free p w1 = (r2, w2)" by (cases "raw_free p w1")
  have s1: "same_but p w w1" using destroy_loop_same [of p w 0 i] d by simp
  have s2: "objs w2 = objs w1 \<and> last_ptr w2 = last_ptr w1 \<and> (\<forall>q. q \<noteq> p \<longrightarrow> blocks w2 q = blocks w1 q)"
    using raw_free_same [of p w1] f by simp
  show ?thesis
    using assms d f s1 s2
    by (cases r1; cases r2) (auto simp: bnd_def throw_def same_but_def)
qed

lemma adopt_frame:
  assumes "bnd (destroy_loop p 0 n) (\<lambda>_. bnd (raw_free p') (\<lambda>_ w3. (Returns (), upd this f w3))) w = (r, w')"
  shows "(r = Returns () \<and> objs w' = (objs w)(this := f (objs w this)) \<or>
          (\<forall>u. r \<noteq> Returns u) \<and> objs w' = objs w) \<and> last_ptr w' = last_ptr w \<and>
     (\<forall>q. q \<noteq> p \<and> q \<noteq> p' \<longrightarrow> blocks w' q = blocks w q)"
proof -
  obtain r1 w1 where d: "destroy_loop p 0 n w = (r1, w1)" by (cases "destroy_loop p 0 n w")
  obtain r2 w2 where f: "raw_free p' w1 = (r2, w2)" by (cases "raw_free p' w1")
  have s1: "same_but p w w1" using destroy_loop_same [of p w 0 n] d by simp
  have s2: "objs w2 = objs w1 \<and> last_ptr w2 = last_ptr w1 \<and> (\<forall>q. q \<noteq> p' \<longrightarrow> blocks w2 q = blocks w1 q)"
    using raw_free_same [of p' w1] f by simp
  show ?thesis
    using assms d f s1 s2
    by (cases r1; cases r2) (auto simp: bnd_def upd_def same_but_def)
qed

lemma ensure_capacity_fields:
  assumes ec: "ensure_capacity this need w = (r, w')"
  shows "objs w' = objs w \<and> (r = Returns () \<longrightarrow> need \<le> cap (objs w this)) \<or>
     r = Returns () \<and>
     (\<exists>ncap. grow (if cap (objs w this) \<noteq> 0 then cap (objs w this) else 1) need = Some ncap \<and>
        objs w' = (objs w)(this := (objs w this)\<lparr>data := Suc (last_ptr w), cap := ncap\<rparr>))"
proof (cases "need \<le> cap (objs w this)")
  case True
  with ec show ?thesis by (simp add: ensure_capacity_def)
next
  case False
  show ?thesis
  proof (cases "grow (if cap (objs w this) \<noteq> 0 then cap (objs w this) else 1) need")
    case None
    with ec False show ?thesis by (auto simp: ensure_capacity_def)
  next
    case (Some ncap)
    show ?thesis
    proof (cases "avail w < ncap")
      case True
      with ec False Some show ?thesis
        by (auto simp: ensure_capacity_def bnd_def raw_alloc_def)
    next
      case na: False
      define nd where "nd = Suc (last_ptr w)"
      define w1 where "w1 = w\<lparr>blocks := (blocks w)(nd \<mapsto> replicate ncap None),
              last_ptr := nd, avail := avail w - ncap, trace := trace w @ [Alloc nd ncap]\<rparr>"
      have ra: "raw_alloc ncap w = (Returns nd, w1)"
        using na by (simp add: raw_alloc_def nd_def w1_def)
      have o1: "objs w1 = objs w" by (simp add: w1_def)
      obtain i r2 w2 where cl: "copy_loop nd (data (objs w this)) 0 (sz (objs w this)) w1 = (i, r2, w2)"
        by (cases "copy_loop nd (data (objs w this)) 0 (sz (objs w this)) w1")
      have "same_but nd w1 w2"
        using copy_loop_same [of nd w1 "data (objs w this)" 0 "sz (objs w this)"] cl by simp
      then have o2: "objs w2 = objs w" using o1 by (simp add: same_but_def)
      show ?thesis
      proof (cases r2)
        case (Throws e)
        have "bnd (destroy_loop nd 0 i) (\<lambda>_. bnd (raw_free nd) (\<lambda>_. throw e)) w2 = (r, w')"
          using ec False Some ra cl Throws o1 by (simp add: ensure_capacity_def bnd_def)
        from teardown_frame [OF this] o2 show ?thesis by auto
      next
        case Undefined
        then show ?thesis
          using ec False Some ra cl o1 o2 by (auto simp: ensure_capacity_def bnd_def)
      next
        case (Returns u)
        have "bnd (destroy_loop (data (objs w2 this)) 0 (sz (objs w2 this))) (\<lambda>_.
                bnd (raw_free (data (objs w2 this))) (\<lambda>_ w3.
                  (Returns (), upd this (\<lambda>v. v\<lparr>data := nd, cap := ncap\<rparr>) w3))) w2 = (r, w')"
          using ec False Some ra cl Returns o1 by (simp add: ensure_capacity_def bnd_def)
        from adopt_frame [OF this] o2 Some show ?thesis by (auto simp: nd_def)
      qed
    qed
  qed
qed

lemma ensure_capacity_sz:
  "sz (objs (snd (ensure_capacity this need w)) this) = sz (objs w this)"
  using ensure_capacity_fields [of this need w "fst (ensure_capacity this need w)" "snd (ensure_capacity this need w)"]
  by auto

lemma ensure_capacity_others:
  "other \<noteq> this \<Longrightarrow> objs (snd (ensure_capacity this need w)) other = objs w other"
  using ensure_capacity_fields [of this need w "fst (ensure_capacity this need w)" "snd (ensure_capacity this need w)"]
  by auto

subsection \<open>\<open>ensure_capacity\<close> on a well-formed vector\<close>

lemma map_Some_the: "list_all (\<lambda>s. s \<noteq> None) xs \<Longrightarrow> map Some (map the xs) = xs"
  by (induction xs) auto

lemma grow_ge:
  assumes "grow (if c \<noteq> 0 then c else 1) need = Some ncap"
  shows "need \<le> ncap" and "0 < ncap"
proof -
  have pos: "0 < (if c \<noteq> 0 then c else (1::nat))" by simp
  from grow_Some [OF pos, of need] assms
  obtain k where k: "ncap = (if c \<noteq> 0 then c else 1) * 2 ^ k" "need \<le> ncap" by auto
  show "need \<le> ncap" by (rule k(2))
  show "0 < ncap" using k(1) by (simp split: if_splits)
qed

lemma wf_block:
  assumes "wf this w" and "cap (objs w this) \<noteq> 0"
  obtains b where "blocks w (data (objs w this)) = Some b" and "length b = cap (objs w this)"
    and "\<forall>j<sz (objs w this). b ! j \<noteq> None" and "data (objs w this) \<noteq> 0"
    and "map Some (contents this w) = take (sz (objs w this)) b"
proof -
  from assms obtain b where b: "blocks w (data (objs w this)) = Some b" "length b = cap (objs w this)"
    "list_all (\<lambda>s. s \<noteq> None) (take (sz (objs w this)) b)" "data (objs w this) \<noteq> 0"
    "sz (objs w this) \<le> cap (objs w this)"
    by (auto simp: wf_def split: option.splits)
  have "\<forall>j<sz (objs w this). b ! j \<noteq> None"
    using b(2,3,5) by (auto simp: list_all_length)
  moreover have "map Some (contents this w) = take (sz (objs w this)) b"
    using b(1) map_Some_the [OF b(3)] by (simp add: contents_def)
  ultimately show ?thesis using b that by blast
qed

lemma wf_empty:
  assumes "wf this w" and "cap (objs w this) = 0"
  shows "data (objs w this) = 0" and "sz (objs w this) = 0" and "contents this w = []"
  using assms by (auto simp: wf_def contents_def split: option.splits)

lemma ensure_capacity_grow:
  fixes w :: "'a world" and this need
  defines "w' \<equiv> snd (ensure_capacity this need w)"
  defines "nd \<equiv> Suc (last_ptr w)"
  assumes wf: "wf this w" and lt: "cap (objs w this) < need"
    and g: "grow (if cap (objs w this) \<noteq> 0 then cap (objs w this) else 1) need = Some ncap"
    and av: "ncap \<le> avail w" and nt: "T_throws w = []"
  shows "fst (ensure_capacity this need w) = Returns ()"
    and "objs w' = (objs w)(this := (objs w this)\<lparr>data := nd, cap := ncap\<rparr>)"
    and "blocks w' nd = Some (map Some (contents this w) @ replicate (ncap - sz (objs w this)) None)"
    and "last_ptr w' = nd"
    and "T_throws w' = []"
    and "avail w' = avail w - ncap + cap (objs w this)"
    and "trace w' = trace w @ Alloc nd ncap # map (Construct nd) [0..<sz (objs w this)]
           @ map (Destroy (data (objs w this))) [0..<sz (objs w this)]
           @ (if data (objs w this) = 0 then [] else [Free (data (objs w this))])"
    and "\<forall>q. q \<noteq> nd \<and> q \<noteq> data (objs w this) \<longrightarrow> blocks w' q = blocks w q"
proof -
  let ?v = "objs w this"
  define w1 where "w1 = w\<lparr>blocks := (blocks w)(nd \<mapsto> replicate ncap None),
      last_ptr := nd, avail := avail w - ncap, trace := trace w @ [Alloc nd ncap]\<rparr>"
  have ra: "raw_alloc ncap w = (Returns nd, w1)"
    using av by (simp add: raw_alloc_def nd_def w1_def)
  have dn: "data ?v \<noteq> nd" using wf by (simp add: wf_def nd_def)
  have ge: "need \<le> ncap" by (rule grow_ge [OF g])
  have all: "fst (ensure_capacity this need w) = Returns () \<and>
    objs w' = (objs w)(this := (objs w this)\<lparr>data := nd, cap := ncap\<rparr>) \<and>
    blocks w' nd = Some (map Some (contents this w) @ replicate (ncap - sz (objs w this)) None) \<and>
    last_ptr w' = nd \<and> T_throws w' = [] \<and> avail w' = avail w - ncap + cap (objs w this) \<and>
    trace w' = trace w @ Alloc nd ncap # map (Construct nd) [0..<sz (objs w this)]
           @ map (Destroy (data (objs w this))) [0..<sz (objs w this)]
           @ (if data (objs w this) = 0 then [] else [Free (data (objs w this))]) \<and>
    (\<forall>q. q \<noteq> nd \<and> q \<noteq> data (objs w this) \<longrightarrow> blocks w' q = blocks w q)"
  proof (cases "cap ?v = 0")
    case True
    note e = wf_empty [OF wf True]
    have cl: "copy_loop nd 0 0 0 w1 = (0, Returns (), w1)"
      by (subst copy_loop.simps) simp
    have dl: "destroy_loop 0 0 0 w1 = (Returns (), w1)"
      by (subst destroy_loop.simps) simp
    have rf: "raw_free 0 w1 = (Returns (), w1)"
      by (simp add: raw_free_def)
    have o: "objs w1 = objs w" by (simp add: w1_def)
    have "ensure_capacity this need w = (Returns (), upd this (\<lambda>v. v\<lparr>data := nd, cap := ncap\<rparr>) w1)"
      using lt g True ra e cl dl rf o
      by (simp add: ensure_capacity_def bnd_def)
    then show ?thesis
      using e True nt by (simp add: w'_def upd_def w1_def)
  next
    case False
    from wf_block [OF wf False] obtain b where
      b: "blocks w (data ?v) = Some b" "length b = cap ?v" "\<forall>j<sz ?v. b ! j \<noteq> None"
        "data ?v \<noteq> 0" "map Some (contents this w) = take (sz ?v) b" by blast
    have szc: "sz ?v \<le> cap ?v" using wf by (simp add: wf_def)
    define w2 where "w2 = w1\<lparr>blocks := (blocks w1)(nd \<mapsto> take (sz ?v) b @ replicate (ncap - sz ?v) None),
        trace := trace w1 @ map (Construct nd) [0..<sz ?v]\<rparr>"
    have cl: "copy_loop nd (data ?v) 0 (sz ?v) w1 = (sz ?v, Returns (), w2)"
      using copy_loop_ok [of "sz ?v" "sz ?v" 0 w1 "data ?v" b nd "replicate ncap None"]
        b szc dn lt ge nt
      by (simp add: w1_def w2_def)
    define w3 where "w3 = w2\<lparr>blocks := (blocks w2)(data ?v \<mapsto> replicate (sz ?v) None @ drop (sz ?v) b),
        trace := trace w2 @ map (Destroy (data ?v)) [0..<sz ?v]\<rparr>"
    have dl: "destroy_loop (data ?v) 0 (sz ?v) w2 = (Returns (), w3)"
      using destroy_loop_ok [of "sz ?v" "sz ?v" 0 w2 "data ?v" b] b szc dn
      by (simp add: w1_def w2_def w3_def)
    define w4 where "w4 = w3\<lparr>blocks := (blocks w3)(data ?v := None),
        avail := avail w3 + cap ?v, trace := trace w3 @ [Free (data ?v)]\<rparr>"
    have rf: "raw_free (data ?v) w3 = (Returns (), w4)"
      using b szc by (simp add: raw_free_def w3_def w4_def)
    have "ensure_capacity this need w = (Returns (), upd this (\<lambda>v. v\<lparr>data := nd, cap := ncap\<rparr>) w4)"
    proof -
      have o: "objs w1 = objs w" "objs w2 = objs w" "objs w3 = objs w"
        by (simp_all add: w1_def w2_def w3_def)
      show ?thesis
        using lt g ra cl dl rf o
        by (simp add: ensure_capacity_def bnd_def)
    qed
    then show ?thesis
      using b dn False nt by (simp add: w'_def upd_def w4_def w3_def w2_def w1_def)
  qed
  then show "fst (ensure_capacity this need w) = Returns ()"
    and "objs w' = (objs w)(this := (objs w this)\<lparr>data := nd, cap := ncap\<rparr>)"
    and "blocks w' nd = Some (map Some (contents this w) @ replicate (ncap - sz (objs w this)) None)"
    and "last_ptr w' = nd"
    and "T_throws w' = []"
    and "avail w' = avail w - ncap + cap (objs w this)"
    and "trace w' = trace w @ Alloc nd ncap # map (Construct nd) [0..<sz (objs w this)]
           @ map (Destroy (data (objs w this))) [0..<sz (objs w this)]
           @ (if data (objs w this) = 0 then [] else [Free (data (objs w this))])"
    and "\<forall>q. q \<noteq> nd \<and> q \<noteq> data (objs w this) \<longrightarrow> blocks w' q = blocks w q"
    by blast+
qed

lemma wf_length_contents: "wf this w \<Longrightarrow> length (contents this w) = sz (objs w this)"
  by (auto simp: wf_def contents_def split: option.splits if_splits)

lemma ensure_capacity_post:
  fixes w :: "'a world" and this need
  defines "w' \<equiv> snd (ensure_capacity this need w)"
  assumes wf: "wf this w" and nt: "T_throws w = []"
    and av: "cap (objs w this) < need \<Longrightarrow>
      \<exists>ncap. grow (if cap (objs w this) \<noteq> 0 then cap (objs w this) else 1) need = Some ncap \<and> ncap \<le> avail w"
  shows "fst (ensure_capacity this need w) = Returns ()"
    and "wf this w'"
    and "contents this w' = contents this w"
    and "sz (objs w' this) = sz (objs w this)"
    and "need \<le> cap (objs w' this)"
    and "T_throws w' = []"
proof -
  have all: "fst (ensure_capacity this need w) = Returns () \<and> wf this w' \<and>
    contents this w' = contents this w \<and> sz (objs w' this) = sz (objs w this) \<and>
    need \<le> cap (objs w' this) \<and> T_throws w' = []"
  proof (cases "need \<le> cap (objs w this)")
    case True
    then have "ensure_capacity this need w = (Returns (), w)"
      by (simp add: ensure_capacity_def)
    with True wf nt show ?thesis by (simp add: w'_def)
  next
    case False
    then have lt: "cap (objs w this) < need" by simp
    from av [OF lt] obtain ncap where
      g: "grow (if cap (objs w this) \<noteq> 0 then cap (objs w this) else 1) need = Some ncap"
      and a: "ncap \<le> avail w" by blast
    note r = ensure_capacity_grow [OF wf lt g a nt, folded w'_def]
    have ge: "need \<le> ncap" by (rule grow_ge [OF g])
    have len: "length (contents this w) = sz (objs w this)" by (rule wf_length_contents [OF wf])
    have szc: "sz (objs w this) \<le> cap (objs w this)" using wf by (simp add: wf_def)
    have c: "contents this w' = contents this w"
      using r(2,3) len by (simp add: contents_def comp_def)
    have "wf this w'"
      using r(2,3,4) len szc lt ge by (simp add: wf_def list_all_iff)
    with r c ge show ?thesis by simp
  qed
  then show "fst (ensure_capacity this need w) = Returns ()"
    and "wf this w'"
    and "contents this w' = contents this w"
    and "sz (objs w' this) = sz (objs w this)"
    and "need \<le> cap (objs w' this)"
    and "T_throws w' = []"
    by blast+
qed

lemma grow_next:
  "grow (if c \<noteq> 0 then c else 1) (c + 1) = Some (max 1 (2 * c))"
proof (cases "c = 0")
  case True
  then show ?thesis by (simp add: grow_stop)
next
  case False
  then have "grow c (c + 1) = grow (c * 2) (c + 1)" by (simp add: grow_step)
  also have "\<dots> = Some (c * 2)" using False by (simp add: grow_stop)
  finally show ?thesis using False by (simp add: max_def mult.commute)
qed

lemma ensure_capacity_fail:
  fixes w :: "'a world" and this need
  assumes wf: "wf this w" and lt: "cap (objs w this) < need"
    and g: "grow (if cap (objs w this) \<noteq> 0 then cap (objs w this) else 1) need = Some ncap"
    and av: "ncap \<le> avail w" and i: "i < sz (objs w this)"
    and plan: "T_throws w = replicate i False @ True # rest"
  shows "ensure_capacity this need w =
    (Throws T_exception,
     w\<lparr>blocks := (blocks w)(Suc (last_ptr w) := None), last_ptr := Suc (last_ptr w),
       T_throws := rest,
       trace := trace w @ Alloc (Suc (last_ptr w)) ncap # map (Construct (Suc (last_ptr w))) [0..<i]
         @ map (Destroy (Suc (last_ptr w))) [0..<i] @ [Free (Suc (last_ptr w))]\<rparr>)"
proof -
  let ?v = "objs w this"
  define nd where "nd = Suc (last_ptr w)"
  define w1 where "w1 = w\<lparr>blocks := (blocks w)(nd \<mapsto> replicate ncap None),
      last_ptr := nd, avail := avail w - ncap, trace := trace w @ [Alloc nd ncap]\<rparr>"
  have ra: "raw_alloc ncap w = (Returns nd, w1)"
    using av by (simp add: raw_alloc_def nd_def w1_def)
  have dn: "data ?v \<noteq> nd" using wf by (simp add: wf_def nd_def)
  have ge: "need \<le> ncap" by (rule grow_ge [OF g])
  have szc: "sz ?v \<le> cap ?v" using wf by (simp add: wf_def)
  with i have "cap ?v \<noteq> 0" by simp
  from wf_block [OF wf this] obtain b where
    b: "blocks w (data ?v) = Some b" "length b = cap ?v" "\<forall>j<sz ?v. b ! j \<noteq> None"
      "data ?v \<noteq> 0" "map Some (contents this w) = take (sz ?v) b" by blast
  define w2 where "w2 = w1\<lparr>blocks := (blocks w1)(nd \<mapsto> take i b @ replicate (ncap - i) None),
      T_throws := rest, trace := trace w1 @ map (Construct nd) [0..<i]\<rparr>"
  have cl: "copy_loop nd (data ?v) 0 (sz ?v) w1 = (i, Throws T_exception, w2)"
    using copy_loop_fail [of w1 "data ?v" b nd "replicate ncap None" "sz ?v" 0 i rest]
      b szc dn lt ge i plan
    by (simp add: w1_def w2_def)
  define w3 where "w3 = w2\<lparr>blocks := (blocks w2)(nd \<mapsto> replicate ncap None),
      trace := trace w2 @ map (Destroy nd) [0..<i]\<rparr>"
  have in': "i \<le> ncap" using i szc lt ge by simp
  have "replicate i None @ replicate (ncap - i) None = (replicate ncap None :: 'a option list)"
    using in' by (simp add: replicate_add [symmetric])
  then have dl: "destroy_loop nd 0 i w2 = (Returns (), w3)"
    using destroy_loop_ok [of i i 0 w2 nd "take i b @ replicate (ncap - i) None"] b szc i in'
    by (simp add: w2_def w3_def nth_append)
  define w4 where "w4 = w3\<lparr>blocks := (blocks w3)(nd := None),
      avail := avail w3 + ncap, trace := trace w3 @ [Free nd]\<rparr>"
  have rf: "raw_free nd w3 = (Returns (), w4)"
    by (simp add: raw_free_def w3_def w4_def nd_def)
  have o: "objs w1 = objs w" by (simp add: w1_def)
  have "ensure_capacity this need w = (Throws T_exception, w4)"
    using lt g ra cl dl rf o by (simp add: ensure_capacity_def bnd_def throw_def)
  also have "w4 = w\<lparr>blocks := (blocks w)(nd := None), last_ptr := nd, T_throws := rest,
       trace := trace w @ Alloc nd ncap # map (Construct nd) [0..<i]
         @ map (Destroy nd) [0..<i] @ [Free nd]\<rparr>"
    using av by (cases w) (simp add: w4_def w3_def w2_def w1_def)
  finally show ?thesis unfolding nd_def .
qed

subsection \<open>The blocks after the shifts, slot by slot\<close>

lemma shift_right_nth:
  "ind \<le> i \<Longrightarrow> i < length b \<Longrightarrow> j < length b \<Longrightarrow>
   (take (Suc ind) b @ take (i - ind) (drop ind b) @ drop (Suc i) b) ! j =
     (if ind < j \<and> j \<le> i then b ! (j - 1) else b ! j)"
  by (auto simp: nth_append min_def)

lemma shift_right_length:
  "ind \<le> i \<Longrightarrow> i < length b \<Longrightarrow>
   length (take (Suc ind) b @ take (i - ind) (drop ind b) @ drop (Suc i) b) = length b"
  by (auto simp: min_def)

lemma shift_left_nth:
  "i < n \<Longrightarrow> n \<le> length b \<Longrightarrow> j < length b \<Longrightarrow>
   (take i b @ take (n - 1 - i) (drop (Suc i) b) @ drop (n - 1) b) ! j =
     (if i \<le> j \<and> j < n - 1 then b ! Suc j else b ! j)"
  by (auto simp: nth_append min_def intro!: arg_cong [where f = "(!) b"])

lemma shift_left_length:
  "i < n \<Longrightarrow> n \<le> length b \<Longrightarrow>
   length (take i b @ take (n - 1 - i) (drop (Suc i) b) @ drop (n - 1) b) = length b"
  by (auto simp: min_def)

subsection \<open>\<open>insert\<close> on a well-formed vector\<close>

lemma wf_nth:
  assumes "wf this w" and "blocks w (data (objs w this)) = Some b" and "k < sz (objs w this)"
  shows "b ! k = Some (contents this w ! k)"
proof -
  from assms have "list_all (\<lambda>s. s \<noteq> None) (take (sz (objs w this)) b)" and "sz (objs w this) \<le> length b"
    by (auto simp: wf_def split: if_splits)
  with assms(3) have "b ! k \<noteq> None" by (auto simp: list_all_length)
  moreover have "contents this w ! k = the (b ! k)"
    using assms \<open>sz (objs w this) \<le> length b\<close> by (simp add: contents_def)
  ultimately show ?thesis by auto
qed

lemma insert_idx_ok:
  fixes w :: "'a world" and this ind x
  defines "n \<equiv> sz (objs w this)"
  defines "w1 \<equiv> snd (ensure_capacity this (n + 1) w)"
  defines "w' \<equiv> snd (insert_idx this ind (Outside x) w)"
  defines "p \<equiv> data (objs w1 this)"
  assumes wf: "wf this w" and nt: "T_throws w = []"
    and av: "sz (objs w this) = cap (objs w this) \<Longrightarrow> max 1 (2 * cap (objs w this)) \<le> avail w"
    and ind: "ind \<le> sz (objs w this)"
  shows "fst (insert_idx this ind (Outside x) w) = Returns \<lparr>owner = Some this, idx = ind\<rparr>"
    and "contents this w' = take ind (contents this w) @ x # drop ind (contents this w)"
    and "sz (objs w' this) = n + 1"
    and "wf this w'"
    and "T_throws w' = []"
    and "trace w' = trace w1 @
          (if ind = n then [Construct p n]
           else Construct p n # map (Assign p) (rev [Suc ind..<n]) @ [Assign p ind])"
    and "data (objs w' this) = p"
    and "cap (objs w' this) = cap (objs w1 this)"
proof -
  let ?xs = "contents this w"
  have szc: "n \<le> cap (objs w this)" using wf by (simp add: wf_def n_def)
  have av': "cap (objs w this) < n + 1 \<Longrightarrow>
      \<exists>ncap. grow (if cap (objs w this) \<noteq> 0 then cap (objs w this) else 1) (n + 1) = Some ncap \<and> ncap \<le> avail w"
  proof -
    assume "cap (objs w this) < n + 1"
    with szc have eq: "n = cap (objs w this)" by simp
    then have "max 1 (2 * cap (objs w this)) \<le> avail w" using av by (simp add: n_def)
    with grow_next [of "cap (objs w this)"] eq show ?thesis by auto
  qed
  note post = ensure_capacity_post [OF wf nt av', folded w1_def]
  have ec: "ensure_capacity this (n + 1) w = (Returns (), w1)"
    using post(1) by (simp add: w1_def prod_eq_iff)
  have n1: "sz (objs w1 this) = n" using post(4) by (simp add: n_def)
  have cap1: "n < cap (objs w1 this)" using post(5) by simp
  then have "cap (objs w1 this) \<noteq> 0" by simp
  from wf_block [OF post(2) this] obtain b where
    b: "blocks w1 p = Some b" "length b = cap (objs w1 this)" "p \<noteq> 0"
    by (auto simp: p_def)
  have bn: "\<And>k. k < n \<Longrightarrow> b ! k = Some (?xs ! k)"
    using wf_nth [OF post(2)] b(1) n1 post(3) by (simp add: p_def)
  have len: "length ?xs = n" using wf_length_contents [OF wf] by (simp add: n_def)
  have pl: "p \<le> last_ptr w1" using post(2) by (simp add: wf_def p_def)
  have all: "fst (insert_idx this ind (Outside x) w) = Returns \<lparr>owner = Some this, idx = ind\<rparr> \<and>
    contents this w' = take ind ?xs @ x # drop ind ?xs \<and>
    sz (objs w' this) = n + 1 \<and> wf this w' \<and> T_throws w' = [] \<and>
    trace w' = trace w1 @
          (if ind = n then [Construct p n]
           else Construct p n # map (Assign p) (rev [Suc ind..<n]) @ [Assign p ind]) \<and>
    data (objs w' this) = p \<and> cap (objs w' this) = cap (objs w1 this)"
  proof (cases "ind = n")
    case True
    define w2 where "w2 = w1\<lparr>blocks := (blocks w1)(p \<mapsto> b[n := Some x]),
        trace := trace w1 @ [Construct p n]\<rparr>"
    have c: "construct_at p n x w1 = (Returns (), w2)"
      using construct_at_ok [of w1 p b n x] b cap1 post(6) by (simp add: w2_def)
    have res: "insert_idx this ind (Outside x) w =
        (Returns \<lparr>owner = Some this, idx = ind\<rparr>, upd this (\<lambda>v. v\<lparr>sz := sz v + 1\<rparr>) w2)"
      using True ec n1 c
      by (simp add: insert_idx_def bnd_def deref_def n_def [symmetric] p_def [symmetric])
    have tk: "take (Suc n) (b[n := Some x]) = take n b @ [Some x]"
      using cap1 b(2) by (simp add: take_Suc_conv_app_nth)
    have tn: "map the (take n b) = ?xs"
      using len bn cap1 b(2) by (intro nth_equalityI) auto
    have "contents this w' = ?xs @ [x]"
      using res n1 by (simp add: w'_def contents_def upd_def w2_def p_def [symmetric] tk tn)
    moreover have "wf this w'"
      using res n1 cap1 b pl bn
      by (auto simp: w'_def wf_def upd_def w2_def p_def [symmetric] tk list_all_length nth_append)
    ultimately show ?thesis
      using res True len n1 post(6)
      by (simp add: w'_def upd_def w2_def p_def [symmetric])
  next
    case False
    with ind have lt: "ind < n" by (simp add: n_def)
    then have npos: "0 < n" by simp
    define y where "y = ?xs ! (n - 1)"
    have by1: "b ! (n - 1) = Some y" using bn [of "n - 1"] npos by (simp add: y_def)
    have e1: "elem p (n - 1) w1 = (Returns y, w1)"
      using elem_ok [of w1 p b "n - 1" y] b cap1 by1 by simp
    define b2 where "b2 = b[n := Some y]"
    define w2 where "w2 = w1\<lparr>blocks := (blocks w1)(p \<mapsto> b2), trace := trace w1 @ [Construct p n]\<rparr>"
    have c1: "construct_at p n y w1 = (Returns (), w2)"
      using construct_at_ok [of w1 p b n y] b cap1 post(6) by (simp add: w2_def b2_def)
    have l2: "length b2 = length b" by (simp add: b2_def)
    have b2n: "\<And>k. k < n \<Longrightarrow> b2 ! k = Some (?xs ! k)" and b2last: "b2 ! n = Some y"
      using bn cap1 b(2) by (simp_all add: b2_def)
    define b3 where "b3 = take (Suc ind) b2 @ take (n - 1 - ind) (drop ind b2) @ drop (Suc (n - 1)) b2"
    define w3 where "w3 = w2\<lparr>blocks := (blocks w2)(p \<mapsto> b3),
        trace := trace w2 @ map (Assign p) (rev [Suc ind..<Suc (n - 1)])\<rparr>"
    have sr: "shift_right p (n - 1) ind w2 = (Returns (), w3)"
    proof -
      have "\<forall>j\<le>n - 1. b2 ! j \<noteq> None" using b2n npos by auto
      then show ?thesis
        using shift_right_ok [of "n - 1 - ind" "n - 1" ind w2 p b2] lt l2 b(2) cap1 post(6)
        by (simp add: w2_def w3_def b3_def)
    qed
    have l3: "length b3 = length b"
      using shift_right_length [of ind "n - 1" b2] lt l2 b(2) cap1 by (simp add: b3_def)
    have b3n: "\<And>j. j < length b \<Longrightarrow> b3 ! j = (if ind < j \<and> j \<le> n - 1 then b2 ! (j - 1) else b2 ! j)"
      using shift_right_nth [of ind "n - 1" b2] lt l2 b(2) cap1 by (simp add: b3_def)
    define b4 where "b4 = b3[ind := Some x]"
    define w4 where "w4 = w3\<lparr>blocks := (blocks w3)(p \<mapsto> b4), trace := trace w3 @ [Assign p ind]\<rparr>"
    have as: "assign_at p ind x w3 = (Returns (), w4)"
    proof -
      have "b3 ! ind \<noteq> None" using b3n [of ind] b2n [of ind] lt cap1 b(2) by simp
      then show ?thesis
        using assign_at_ok [of w3 p b3 ind x] l3 lt cap1 b(2) post(6)
        by (simp add: w4_def w3_def w2_def b4_def)
    qed
    have res: "insert_idx this ind (Outside x) w =
        (Returns \<lparr>owner = Some this, idx = ind\<rparr>, upd this (\<lambda>v. v\<lparr>sz := sz v + 1\<rparr>) w4)"
      using False ind ec n1 e1 c1 sr as
      by (simp add: insert_idx_def bnd_def deref_def n_def [symmetric] p_def [symmetric])
    have b4n: "\<And>j. j \<le> n \<Longrightarrow> b4 ! j =
        Some (if j < ind then ?xs ! j else if j = ind then x else ?xs ! (j - 1))"
    proof -
      fix j assume j: "j \<le> n"
      show "b4 ! j = Some (if j < ind then ?xs ! j else if j = ind then x else ?xs ! (j - 1))"
      proof (cases "j = ind")
        case True
        then show ?thesis using l3 lt cap1 b(2) by (simp add: b4_def)
      next
        case ne: False
        then have "b4 ! j = b3 ! j" by (simp add: b4_def)
        also have "\<dots> = (if ind < j \<and> j \<le> n - 1 then b2 ! (j - 1) else b2 ! j)"
          using b3n [of j] j cap1 b(2) by simp
        also have "\<dots> = Some (if j < ind then ?xs ! j else ?xs ! (j - 1))"
        proof (cases "j = n")
          case True
          moreover have "\<not> n \<le> n - 1" using npos by arith
          ultimately show ?thesis using lt b2last by (simp add: y_def)
        next
          case False
          with j have "j < n" by simp
          then show ?thesis using ne b2n [of j] b2n [of "j - 1"] by auto
        qed
        finally show ?thesis using ne by simp
      qed
    qed
    have l4: "length b4 = length b" using l3 by (simp add: b4_def)
    have blk: "blocks w4 p = Some b4" by (simp add: w4_def)
    have "contents this w' = take ind ?xs @ x # drop ind ?xs"
    proof (rule nth_equalityI)
      show "length (contents this w') = length (take ind ?xs @ x # drop ind ?xs)"
        using res n1 blk l4 cap1 b(2) len lt
        by (simp add: w'_def contents_def upd_def w4_def w3_def w2_def p_def [symmetric])
    next
      fix j assume "j < length (contents this w')"
      then have j: "j \<le> n"
        using res n1 blk l4 cap1 b(2)
        by (simp add: w'_def contents_def upd_def w4_def w3_def w2_def p_def [symmetric])
      then have "contents this w' ! j = the (b4 ! j)"
        using res n1 blk l4 cap1 b(2)
        by (simp add: w'_def contents_def upd_def w4_def w3_def w2_def p_def [symmetric])
      then show "contents this w' ! j = (take ind ?xs @ x # drop ind ?xs) ! j"
        using b4n [OF j] len lt j by (auto simp: nth_append nth_Cons')
    qed
    moreover have "wf this w'"
    proof -
      have "list_all (\<lambda>s. s \<noteq> None) (take (Suc n) b4)"
        using b4n l4 cap1 b(2) by (auto simp: list_all_length)
      then show ?thesis
        using res n1 cap1 b pl l4
        by (simp add: w'_def wf_def upd_def w4_def w3_def w2_def p_def [symmetric])
    qed
    ultimately show ?thesis
      using res False n1 post(6) npos
      by (simp add: w'_def upd_def w4_def w3_def w2_def p_def [symmetric])
  qed
  then show "fst (insert_idx this ind (Outside x) w) = Returns \<lparr>owner = Some this, idx = ind\<rparr>"
    and "contents this w' = take ind (contents this w) @ x # drop ind (contents this w)"
    and "sz (objs w' this) = n + 1"
    and "wf this w'"
    and "T_throws w' = []"
    and "trace w' = trace w1 @
          (if ind = n then [Construct p n]
           else Construct p n # map (Assign p) (rev [Suc ind..<n]) @ [Assign p ind])"
    and "data (objs w' this) = p"
    and "cap (objs w' this) = cap (objs w1 this)"
    by blast+
qed

subsection \<open>Evaluating the example worlds\<close>

lemma replicate_numeral_unfold: "replicate (numeral k) x = x # replicate (pred_numeral k) x"
  by (simp add: numeral_eq_Suc)

lemmas prim_defs = bnd_def throw_def returns_def upd_def raw_alloc_def raw_free_def T_op_def elem_def
  deref_def construct_at_def assign_at_def destroy_at_def
  copy_loop.simps destroy_loop.simps shift_right.simps shift_left.simps grow_stop grow_step
  replicate_numeral_unfold numeral_2_eq_2 [symmetric]

lemma three_reached:
  "snd (push_back 0 (Outside 3) (snd (push_back 0 (Outside 2)
     (snd (push_back 0 (Outside 1) (initial_world 100 [])))))) = three"
proof -
  have 1: "snd (push_back 0 (Outside 1) (initial_world 100 [])) =
    \<lparr>objs = (\<lambda>_. \<lparr>data = 0, sz = 0, cap = 0\<rparr>)(0 := \<lparr>data = 1, sz = 1, cap = 1\<rparr>),
     blocks = (\<lambda>_. None)(1 \<mapsto> [Some (1::nat)]), last_ptr = 1, avail = 99, T_throws = [],
     trace = [Alloc 1 1, Construct 1 0]\<rparr>"
    by (simp add: push_back_def ensure_capacity_def initial_world_def prim_defs)
  have 2: "snd (push_back 0 (Outside 2) (snd (push_back 0 (Outside 1) (initial_world 100 [])))) =
    \<lparr>objs = (\<lambda>_. \<lparr>data = 0, sz = 0, cap = 0\<rparr>)(0 := \<lparr>data = 2, sz = 2, cap = 2\<rparr>),
     blocks = (\<lambda>_. None)(2 \<mapsto> [Some (1::nat), Some 2]), last_ptr = 2, avail = 98, T_throws = [],
     trace = [Alloc 1 1, Construct 1 0, Alloc 2 2, Construct 2 0, Destroy 1 0, Free 1, Construct 2 1]\<rparr>"
    unfolding 1 by (simp add: push_back_def ensure_capacity_def prim_defs fun_upd_twist)
  show ?thesis
    unfolding 2 by (simp add: push_back_def ensure_capacity_def prim_defs three_def fun_upd_twist)
qed

lemma three_facts:
  "wf 0 three" "T_throws three = []" "contents 0 three = [1, 2, 3]"
  "objs three 0 = \<lparr>data = 3, sz = 3, cap = 4\<rparr>" "avail three = 96" "last_ptr three = 3"
  by (simp_all add: three_def wf_def contents_def)



subsection \<open>\<open>erase\<close> on a well-formed vector\<close>

lemma erase_it_ok:
  fixes w :: "'a world" and this ind
  defines "n \<equiv> sz (objs w this)"
  defines "p \<equiv> data (objs w this)"
  defines "w' \<equiv> snd (erase_it this \<lparr>owner = Some this, idx = ind\<rparr> w)"
  assumes wf: "wf this w" and nt: "T_throws w = []" and ind: "ind < sz (objs w this)"
  shows "fst (erase_it this \<lparr>owner = Some this, idx = ind\<rparr> w) = Returns \<lparr>owner = Some this, idx = ind\<rparr>"
    and "contents this w' = take ind (contents this w) @ drop (Suc ind) (contents this w)"
    and "objs w' = (objs w)(this := (objs w this)\<lparr>sz := n - 1\<rparr>)"
    and "wf this w'"
    and "T_throws w' = []"
    and "trace w' = trace w @ map (Assign p) [ind..<n - 1] @ [Destroy p (n - 1)]"
proof -
  let ?xs = "contents this w"
  let ?it = "\<lparr>owner = Some this, idx = ind\<rparr>"
  have lt: "ind < n" using ind by (simp add: n_def)
  have szc: "n \<le> cap (objs w this)" using wf by (simp add: wf_def n_def)
  with lt have "cap (objs w this) \<noteq> 0" by simp
  from wf_block [OF wf this] obtain b where
    b: "blocks w p = Some b" "length b = cap (objs w this)" "p \<noteq> 0"
    by (auto simp: p_def)
  have bn: "\<And>k. k < n \<Longrightarrow> b ! k = Some (?xs ! k)"
    using wf_nth [OF wf] b(1) by (simp add: p_def n_def)
  have len: "length ?xs = n" using wf_length_contents [OF wf] by (simp add: n_def)
  have pl: "p \<le> last_ptr w" using wf by (simp add: wf_def p_def)
  define b1 where "b1 = take ind b @ take (n - 1 - ind) (drop (Suc ind) b) @ drop (n - 1) b"
  define w2 where "w2 = w\<lparr>blocks := (blocks w)(p \<mapsto> b1[n - 1 := None]),
      trace := trace w @ map (Assign p) [ind..<n - 1] @ [Destroy p (n - 1)]\<rparr>"
  have l1: "length b1 = length b"
    using shift_left_length [of ind n b] lt szc b(2) by (simp add: b1_def)
  have b1n: "\<And>j. j < length b \<Longrightarrow> b1 ! j = (if ind \<le> j \<and> j < n - 1 then b ! Suc j else b ! j)"
    using shift_left_nth [of ind n b] lt szc b(2) by (simp add: b1_def)
  have res: "erase_it this ?it w = (Returns ?it, upd this (\<lambda>v. v\<lparr>sz := sz v - 1\<rparr>) w2)"
  proof (cases "ind = n - 1")
    case True
    then have "b1 = b" using lt by (simp add: b1_def)
    then have d: "destroy_at p (n - 1) w = (Returns (), w2)"
      using destroy_at_ok [of w p b "n - 1"] b bn [of "n - 1"] lt szc True
      by (simp add: w2_def)
    have "sz (objs w2 this) = n" by (simp add: w2_def n_def)
    then show ?thesis
      using True ind d lt
      by (simp add: erase_it_def bnd_def vend_def upd_def Let_def n_def [symmetric] p_def [symmetric])
  next
    case False
    define w1 where "w1 = w\<lparr>blocks := (blocks w)(p \<mapsto> b1), trace := trace w @ map (Assign p) [ind..<n - 1]\<rparr>"
    have sl: "shift_left p ind n w = (Returns (), w1)"
    proof -
      have "\<forall>j<n. b ! j \<noteq> None" using bn by simp
      then show ?thesis
        using shift_left_ok [of "n - 1 - ind" n ind w p b] b lt szc nt
        by (simp add: w1_def b1_def)
    qed
    have "b1 ! (n - 1) \<noteq> None"
      using b1n [of "n - 1"] bn [of "n - 1"] lt szc b(2) by simp
    then have d: "destroy_at p (n - 1) w1 = (Returns (), w2)"
      using destroy_at_ok [of w1 p b1 "n - 1"] l1 lt szc b(2)
      by (simp add: w1_def w2_def)
    show ?thesis
      using False ind sl d
      by (simp add: erase_it_def bnd_def Let_def n_def [symmetric] p_def [symmetric])
  qed
  have blk: "blocks w2 p = Some (b1[n - 1 := None])" by (simp add: w2_def)
  have c: "contents this w' = take ind ?xs @ drop (Suc ind) ?xs"
  proof (rule nth_equalityI)
    show "length (contents this w') = length (take ind ?xs @ drop (Suc ind) ?xs)"
      using res blk l1 szc b(2) len lt
      by (simp add: w'_def contents_def upd_def w2_def p_def [symmetric] n_def [symmetric])
  next
    fix j assume "j < length (contents this w')"
    then have j: "j < n - 1"
      using res blk l1 szc b(2)
      by (simp add: w'_def contents_def upd_def w2_def p_def [symmetric] n_def [symmetric])
    then have "contents this w' ! j = the (b1 ! j)"
      using res blk l1 szc b(2)
      by (simp add: w'_def contents_def upd_def w2_def p_def [symmetric] n_def [symmetric])
    also have "\<dots> = (if ind \<le> j then ?xs ! Suc j else ?xs ! j)"
      using b1n [of j] bn [of j] bn [of "Suc j"] j szc b(2) by auto
    also have "\<dots> = (take ind ?xs @ drop (Suc ind) ?xs) ! j"
      using len lt j by (auto simp: nth_append)
    finally show "contents this w' ! j = (take ind ?xs @ drop (Suc ind) ?xs) ! j" .
  qed
  have w: "wf this w'"
  proof -
    have "list_all (\<lambda>s. s \<noteq> None) (take (n - 1) (b1[n - 1 := None]))"
      using b1n bn l1 szc b(2) by (auto simp: list_all_length)
    then show ?thesis
      using res szc b pl l1 lt
      by (simp add: w'_def wf_def upd_def w2_def p_def [symmetric] n_def [symmetric])
  qed
  show "fst (erase_it this ?it w) = Returns ?it" using res by simp
  show "contents this w' = take ind ?xs @ drop (Suc ind) ?xs" by (rule c)
  show "wf this w'" by (rule w)
  show "objs w' = (objs w)(this := (objs w this)\<lparr>sz := n - 1\<rparr>)"
    using res by (simp add: w'_def upd_def w2_def n_def)
  show "T_throws w' = []" using res nt by (simp add: w'_def upd_def w2_def)
  show "trace w' = trace w @ map (Assign p) [ind..<n - 1] @ [Destroy p (n - 1)]"
    using res by (simp add: w'_def upd_def w2_def)
qed

lemma grow_least:
  "0 < n \<Longrightarrow> need \<le> n * 2 ^ k \<Longrightarrow> \<forall>j<k. n * 2 ^ j < need \<Longrightarrow> grow n need = Some (n * 2 ^ k)"
proof (induction k arbitrary: n)
  case 0
  then show ?case by (simp add: grow_stop)
next
  case (Suc k)
  from Suc.prems(3) have "n * 2 ^ 0 < need" by blast
  then have lt: "n < need" by simp
  have p3: "\<forall>j<k. n * 2 * 2 ^ j < need"
  proof (intro allI impI)
    fix j assume "j < k"
    then have "Suc j < Suc k" by simp
    with Suc.prems(3) have "n * 2 ^ Suc j < need" by blast
    then show "n * 2 * 2 ^ j < need" by (simp add: mult.assoc)
  qed
  have p2: "need \<le> n * 2 * 2 ^ k" using Suc.prems(2) by (simp add: mult.assoc)
  have p1: "0 < n * 2" using Suc.prems(1) by simp
  have "grow (n * 2) need = Some (n * 2 * 2 ^ k)" by (rule Suc.IH [OF p1 p2 p3])
  then show ?case using lt by (simp add: grow_step mult.assoc)
qed

lemma contents_cong:
  "objs w' this = objs w this \<Longrightarrow>
   blocks w' (data (objs w this)) = blocks w (data (objs w this)) \<Longrightarrow>
   contents this w' = contents this w"
  by (simp add: contents_def cong: option.case_cong)

lemma wf_cong:
  "wf this w \<Longrightarrow> objs w' this = objs w this \<Longrightarrow>
   blocks w' (data (objs w this)) = blocks w (data (objs w this)) \<Longrightarrow>
   last_ptr w \<le> last_ptr w' \<Longrightarrow> wf this w'"
  by (auto simp: wf_def split: option.splits if_splits)

lemma three_failing_facts:
  "wf 0 three_failing" "T_throws three_failing = [False, True]" "contents 0 three_failing = [1, 2, 3]"
  "objs three_failing = objs three" "avail three_failing = 96" "last_ptr three_failing = 3"
  "trace three_failing = trace three" "blocks three_failing = blocks three"
  by (simp_all add: three_failing_def three_def wf_def contents_def)

subsection \<open>Which exceptions can be thrown\<close>

lemma throws_in_mono: "throws_in S f \<Longrightarrow> S \<subseteq> S' \<Longrightarrow> throws_in S' f"
  by (auto simp: throws_in_def)

lemma throws_in_bnd:
  "throws_in S f \<Longrightarrow> (\<And>r. throws_in S (g r)) \<Longrightarrow> throws_in S (bnd f g)"
  unfolding throws_in_def bnd_def
  by (auto split: prod.splits outcome.splits) (metis fst_conv)+

lemma throws_in_D: "throws_in S f \<Longrightarrow> fst (f w) = Throws e \<Longrightarrow> e \<in> S"
  by (auto simp: throws_in_def)

lemma throws_in_elem: "throws_in S (elem p i)"
  by (simp add: throws_in_def elem_def split: option.splits)

lemma throws_in_deref: "throws_in S (deref r)"
  by (cases r) (simp_all add: throws_in_def deref_def elem_def split: option.splits)

lemma throws_in_T_op: "throws_in {T_exception} T_op"
  by (simp add: throws_in_def T_op_def split: list.splits)

lemma throws_in_construct_at: "throws_in {T_exception} (construct_at p i x)"
  by (simp add: throws_in_def construct_at_def bnd_def T_op_def split: option.splits list.splits)

lemma throws_in_assign_at: "throws_in {T_exception} (assign_at p i x)"
  by (simp add: throws_in_def assign_at_def bnd_def T_op_def split: option.splits list.splits)

lemma throws_in_destroy_at: "throws_in {} (destroy_at p i)"
  by (simp add: throws_in_def destroy_at_def split: option.splits)

lemma throws_in_raw_alloc: "throws_in {bad_alloc} (raw_alloc n)"
  by (simp add: throws_in_def raw_alloc_def)

lemma throws_in_raw_free: "throws_in {} (raw_free p)"
  by (simp add: throws_in_def raw_free_def split: option.splits)

lemma throws_in_destroy_loop: "throws_in {} (destroy_loop p j n)"
  by (simp add: throws_in_def destroy_loop_no_throw)

lemma copy_loop_throws: "fst (snd (copy_loop nd d i n w)) = Throws e \<Longrightarrow> e = T_exception"
proof (induction nd d i n w rule: copy_loop.induct)
  case (1 nd d i n w)
  show ?case
  proof (cases "i < n")
    case False
    with "1.prems" show ?thesis by (subst (asm) copy_loop.simps) simp
  next
    case True
    obtain r w1 where s: "bnd (elem d i) (construct_at nd i) w = (r, w1)"
      by (cases "bnd (elem d i) (construct_at nd i) w")
    have t: "throws_in {T_exception} (bnd (elem d i) (construct_at nd i))"
      by (intro throws_in_bnd throws_in_elem throws_in_construct_at)
    show ?thesis
    proof (cases r)
      case (Returns u)
      have "fst (snd (copy_loop nd d (Suc i) n w1)) = Throws e"
        using "1.prems" True s Returns by (subst (asm) copy_loop.simps) simp
      then show ?thesis by (rule "1.IH" [OF True s [symmetric] Returns])
    next
      case (Throws e')
      with "1.prems" True s have "e' = e" by (subst (asm) copy_loop.simps) simp
      with throws_in_D [OF t, of w e'] s Throws show ?thesis by simp
    next
      case Undefined
      with "1.prems" True s show ?thesis by (subst (asm) copy_loop.simps) simp
    qed
  qed
qed

lemma throws_in_shift_right: "throws_in {T_exception} (shift_right p i ind)"
proof -
  have "fst (shift_right p i ind w) = Throws e \<Longrightarrow> e = T_exception" for w e
  proof (induction p i ind w rule: shift_right.induct)
    case (1 p i ind w)
    show ?case
    proof (cases "ind < i")
      case False
      with "1.prems" show ?thesis by (subst (asm) shift_right.simps) simp
    next
      case True
      obtain r w1 where s: "bnd (elem p (i - 1)) (assign_at p i) w = (r, w1)"
        by (cases "bnd (elem p (i - 1)) (assign_at p i) w")
      have t: "throws_in {T_exception} (bnd (elem p (i - 1)) (assign_at p i))"
        by (intro throws_in_bnd throws_in_elem throws_in_assign_at)
      show ?thesis
      proof (cases r)
        case (Returns u)
        have "fst (shift_right p (i - 1) ind w1) = Throws e"
          using "1.prems" True s Returns by (subst (asm) shift_right.simps) (simp add: s [simplified])
        then show ?thesis by (rule "1.IH" [OF True s [symmetric] Returns])
      next
        case (Throws e')
        with "1.prems" True s have "e' = e"
          by (subst (asm) shift_right.simps) (simp add: s [simplified])
        with throws_in_D [OF t, of w e'] s Throws show ?thesis by simp
      next
        case Undefined
        with "1.prems" True s show ?thesis
          by (subst (asm) shift_right.simps) (simp add: s [simplified])
      qed
    qed
  qed
  then show ?thesis by (auto simp: throws_in_def)
qed

lemma throws_in_shift_left: "throws_in {T_exception} (shift_left p i n)"
proof -
  have "fst (shift_left p i n w) = Throws e \<Longrightarrow> e = T_exception" for w e
  proof (induction p i n w rule: shift_left.induct)
    case (1 p i n w)
    show ?case
    proof (cases "i + 1 < n")
      case False
      with "1.prems" show ?thesis by (subst (asm) shift_left.simps) simp
    next
      case True
      obtain r w1 where s: "bnd (elem p (i + 1)) (assign_at p i) w = (r, w1)"
        by (cases "bnd (elem p (i + 1)) (assign_at p i) w")
      have t: "throws_in {T_exception} (bnd (elem p (i + 1)) (assign_at p i))"
        by (intro throws_in_bnd throws_in_elem throws_in_assign_at)
      show ?thesis
      proof (cases r)
        case (Returns u)
        have "fst (shift_left p (Suc i) n w1) = Throws e"
          using "1.prems" True s Returns by (subst (asm) shift_left.simps) (simp add: s [simplified])
        then show ?thesis by (rule "1.IH" [OF True s [symmetric] Returns])
      next
        case (Throws e')
        with "1.prems" True s have "e' = e"
          by (subst (asm) shift_left.simps) (simp add: s [simplified])
        with throws_in_D [OF t, of w e'] s Throws show ?thesis by simp
      next
        case Undefined
        with "1.prems" True s show ?thesis
          by (subst (asm) shift_left.simps) (simp add: s [simplified])
      qed
    qed
  qed
  then show ?thesis by (auto simp: throws_in_def)
qed

lemma throws_in_ensure_capacity: "throws_in {bad_alloc, T_exception} (ensure_capacity this need)"
  unfolding throws_in_def
proof (intro allI impI)
  fix w :: "'a world" and e
  assume t: "fst (ensure_capacity this need w) = Throws e"
  show "e \<in> {bad_alloc, T_exception}"
  proof (cases "need \<le> cap (objs w this)")
    case True
    with t show ?thesis by (simp add: ensure_capacity_def)
  next
    case False
    show ?thesis
    proof (cases "grow (if cap (objs w this) \<noteq> 0 then cap (objs w this) else 1) need")
      case None
      with t False show ?thesis by (simp add: ensure_capacity_def)
    next
      case (Some ncap)
      show ?thesis
      proof (cases "avail w < ncap")
        case True
        with t False Some show ?thesis by (simp add: ensure_capacity_def bnd_def raw_alloc_def)
      next
        case na: False
        obtain nd w1 where ra: "raw_alloc ncap w = (Returns nd, w1)"
          using na by (simp add: raw_alloc_def)
        obtain i r2 w2 where cl: "copy_loop nd (data (objs w1 this)) 0 (sz (objs w1 this)) w1 = (i, r2, w2)"
          by (cases "copy_loop nd (data (objs w1 this)) 0 (sz (objs w1 this)) w1")
        show ?thesis
        proof (cases r2)
          case (Throws e')
          have e': "e' = T_exception"
            using copy_loop_throws [of nd "data (objs w1 this)" 0 "sz (objs w1 this)" w1 e'] cl Throws by simp
          have "fst (bnd (destroy_loop nd 0 i) (\<lambda>_. bnd (raw_free nd) (\<lambda>_. (throw e' :: ('a, unit) prog))) w2) = Throws e"
            using t False Some ra cl Throws by (simp add: ensure_capacity_def bnd_def)
          moreover have "throws_in {T_exception} (bnd (destroy_loop nd 0 i) (\<lambda>_. bnd (raw_free nd) (\<lambda>_. (throw e' :: ('a, unit) prog))))"
            by (intro throws_in_bnd throws_in_mono [OF throws_in_destroy_loop]
                throws_in_mono [OF throws_in_raw_free]) (simp_all add: throws_in_def throw_def e')
          ultimately show ?thesis using throws_in_D by fastforce
        next
          case Undefined
          with t False Some ra cl show ?thesis by (simp add: ensure_capacity_def bnd_def)
        next
          case (Returns u)
          have "fst (bnd (destroy_loop (data (objs w2 this)) 0 (sz (objs w2 this))) (\<lambda>_.
                bnd (raw_free (data (objs w2 this))) (\<lambda>_ w3.
                  (Returns (), upd this (\<lambda>v. v\<lparr>data := nd, cap := ncap\<rparr>) w3))) w2) = Throws e"
            using t False Some ra cl Returns by (simp add: ensure_capacity_def bnd_def)
          moreover have "throws_in {} (bnd (destroy_loop (data (objs w2 this)) 0 (sz (objs w2 this))) (\<lambda>_.
                bnd (raw_free (data (objs w2 this))) (\<lambda>_ w3.
                  (Returns (), upd this (\<lambda>v. v\<lparr>data := nd, cap := ncap\<rparr>) w3))))"
            by (intro throws_in_bnd throws_in_destroy_loop throws_in_raw_free) (simp add: throws_in_def)
          ultimately show ?thesis using throws_in_D by fastforce
        qed
      qed
    qed
  qed
qed

lemma insert_idx_throws:
  assumes "fst (insert_idx this ind val w) = Throws e" and "ind \<le> sz (objs w this)"
  shows "e \<in> {bad_alloc, T_exception}"
proof -
  let ?S = "{bad_alloc, T_exception}"
  have 1: "throws_in ?S (\<lambda>w2. (Returns it, upd this f w2))" for it :: iterator and f
    by (simp add: throws_in_def)
  have c: "throws_in ?S (construct_at p i x)" for p i x
    by (rule throws_in_mono [OF throws_in_construct_at]) simp
  have a: "throws_in ?S (assign_at p i x)" for p i x
    by (rule throws_in_mono [OF throws_in_assign_at]) simp
  have s: "throws_in ?S (shift_right p i j)" for p i j
    by (rule throws_in_mono [OF throws_in_shift_right]) simp
  have "throws_in ?S (bnd (ensure_capacity this (sz (objs w this) + 1)) (\<lambda>_ w1.
          if ind = sz (objs w1 this) then
            bnd (deref val) (\<lambda>x.
            bnd (construct_at (data (objs w1 this)) (sz (objs w1 this)) x) (\<lambda>_ w2.
              (Returns \<lparr>owner = Some this, idx = ind\<rparr>,
               upd this (\<lambda>v. v\<lparr>sz := sz v + 1\<rparr>) w2))) w1
          else
            bnd (elem (data (objs w1 this)) (sz (objs w1 this) - 1)) (\<lambda>y.
            bnd (construct_at (data (objs w1 this)) (sz (objs w1 this)) y) (\<lambda>_.
            bnd (shift_right (data (objs w1 this)) (sz (objs w1 this) - 1) ind) (\<lambda>_.
            bnd (deref val) (\<lambda>x.
            bnd (assign_at (data (objs w1 this)) ind x) (\<lambda>_ w2.
              (Returns \<lparr>owner = Some this, idx = ind\<rparr>,
               upd this (\<lambda>v. v\<lparr>sz := sz v + 1\<rparr>) w2)))))) w1))"
  proof (rule throws_in_bnd [OF throws_in_ensure_capacity])
    fix r
    show "throws_in ?S (\<lambda>w1.
          if ind = sz (objs w1 this) then
            bnd (deref val) (\<lambda>x.
            bnd (construct_at (data (objs w1 this)) (sz (objs w1 this)) x) (\<lambda>_ w2.
              (Returns \<lparr>owner = Some this, idx = ind\<rparr>,
               upd this (\<lambda>v. v\<lparr>sz := sz v + 1\<rparr>) w2))) w1
          else
            bnd (elem (data (objs w1 this)) (sz (objs w1 this) - 1)) (\<lambda>y.
            bnd (construct_at (data (objs w1 this)) (sz (objs w1 this)) y) (\<lambda>_.
            bnd (shift_right (data (objs w1 this)) (sz (objs w1 this) - 1) ind) (\<lambda>_.
            bnd (deref val) (\<lambda>x.
            bnd (assign_at (data (objs w1 this)) ind x) (\<lambda>_ w2.
              (Returns \<lparr>owner = Some this, idx = ind\<rparr>,
               upd this (\<lambda>v. v\<lparr>sz := sz v + 1\<rparr>) w2)))))) w1)"
      unfolding throws_in_def
    proof (intro allI impI)
      fix w1 :: "'a world" and e
      assume t: "fst (if ind = sz (objs w1 this) then
            bnd (deref val) (\<lambda>x.
            bnd (construct_at (data (objs w1 this)) (sz (objs w1 this)) x) (\<lambda>_ w2.
              (Returns \<lparr>owner = Some this, idx = ind\<rparr>,
               upd this (\<lambda>v. v\<lparr>sz := sz v + 1\<rparr>) w2))) w1
          else
            bnd (elem (data (objs w1 this)) (sz (objs w1 this) - 1)) (\<lambda>y.
            bnd (construct_at (data (objs w1 this)) (sz (objs w1 this)) y) (\<lambda>_.
            bnd (shift_right (data (objs w1 this)) (sz (objs w1 this) - 1) ind) (\<lambda>_.
            bnd (deref val) (\<lambda>x.
            bnd (assign_at (data (objs w1 this)) ind x) (\<lambda>_ w2.
              (Returns \<lparr>owner = Some this, idx = ind\<rparr>,
               upd this (\<lambda>v. v\<lparr>sz := sz v + 1\<rparr>) w2)))))) w1) = Throws e"
      have A: "throws_in ?S (bnd (deref val) (\<lambda>x.
            bnd (construct_at (data (objs w1 this)) (sz (objs w1 this)) x) (\<lambda>_ w2.
              (Returns \<lparr>owner = Some this, idx = ind\<rparr>,
               upd this (\<lambda>v. v\<lparr>sz := sz v + 1\<rparr>) w2))))"
        by (intro throws_in_bnd throws_in_deref c 1)
      have B: "throws_in ?S (bnd (elem (data (objs w1 this)) (sz (objs w1 this) - 1)) (\<lambda>y.
            bnd (construct_at (data (objs w1 this)) (sz (objs w1 this)) y) (\<lambda>_.
            bnd (shift_right (data (objs w1 this)) (sz (objs w1 this) - 1) ind) (\<lambda>_.
            bnd (deref val) (\<lambda>x.
            bnd (assign_at (data (objs w1 this)) ind x) (\<lambda>_ w2.
              (Returns \<lparr>owner = Some this, idx = ind\<rparr>,
               upd this (\<lambda>v. v\<lparr>sz := sz v + 1\<rparr>) w2)))))))"
        by (intro throws_in_bnd throws_in_elem throws_in_deref c a s 1)
      show "e \<in> ?S"
        using t throws_in_D [OF A, of w1 e] throws_in_D [OF B, of w1 e]
        by (simp split: if_splits)
    qed
  qed
  then show ?thesis
    using assms by (auto simp: insert_idx_def dest: throws_in_D)
qed

lemma erase_it_throws:
  assumes "fst (erase_it this pos w) = Throws e" and "owner pos = Some this" and "idx pos < sz (objs w this)"
  shows "e = T_exception"
proof -
  let ?S = "{T_exception}"
  have 1: "throws_in ?S (\<lambda>w2. (Returns it, upd this f w2))" for it :: iterator and f
    by (simp add: throws_in_def)
  have 2: "throws_in ?S (\<lambda>w1. vend this (upd this f w1))" for f
    by (simp add: throws_in_def vend_def)
  have d: "throws_in ?S (destroy_at p i)" for p i
    by (rule throws_in_mono [OF throws_in_destroy_at]) simp
  have A: "throws_in ?S (bnd (destroy_at (data (objs w this)) (sz (objs w this) - 1)) (\<lambda>_ w1.
            vend this (upd this (\<lambda>v. v\<lparr>sz := sz v - 1\<rparr>) w1)))"
    by (intro throws_in_bnd d 2)
  have B: "throws_in ?S (bnd (shift_left (data (objs w this)) (idx pos) (sz (objs w this))) (\<lambda>_.
          bnd (destroy_at (data (objs w this)) (sz (objs w this) - 1)) (\<lambda>_ w1.
            (Returns \<lparr>owner = Some this, idx = idx pos\<rparr>,
             upd this (\<lambda>v. v\<lparr>sz := sz v - 1\<rparr>) w1))))"
    by (intro throws_in_bnd throws_in_shift_left d 1)
  show ?thesis
    using assms throws_in_D [OF A, of w e] throws_in_D [OF B, of w e]
    by (simp add: erase_it_def Let_def split: if_splits)
qed

subsection \<open>Copy construction and copy assignment\<close>

lemma teardown_fields:
  assumes "bnd (destroy_loop p 0 i) (\<lambda>_. bnd (raw_free p') (\<lambda>_ w4. (r0, upd this f w4))) w = (r, w')"
  shows "(\<forall>j. j \<noteq> this \<longrightarrow> objs w' j = objs w j) \<and>
     (\<forall>q. q \<noteq> p \<and> q \<noteq> p' \<longrightarrow> blocks w' q = blocks w q) \<and> last_ptr w' = last_ptr w"
proof -
  obtain r1 w1 where d: "destroy_loop p 0 i w = (r1, w1)" by (cases "destroy_loop p 0 i w")
  obtain r2 w2 where f: "raw_free p' w1 = (r2, w2)" by (cases "raw_free p' w1")
  have s1: "same_but p w w1" using destroy_loop_same [of p w 0 i] d by simp
  have s2: "objs w2 = objs w1 \<and> last_ptr w2 = last_ptr w1 \<and> (\<forall>q. q \<noteq> p' \<longrightarrow> blocks w2 q = blocks w1 q)"
    using raw_free_same [of p' w1] f by simp
  show ?thesis
    using assms d f s1 s2
    by (cases r1; cases r2) (auto simp: bnd_def upd_def same_but_def)
qed

lemma vector_copy_frame:
  assumes vc: "vector_copy this other w = (r, w')"
  shows "(\<forall>j. j \<noteq> this \<longrightarrow> objs w' j = objs w j) \<and>
     (\<forall>q. q \<noteq> Suc (last_ptr w) \<longrightarrow> blocks w' q = blocks w q) \<and> last_ptr w \<le> last_ptr w'"
proof -
  define w0 where "w0 = upd this (\<lambda>v. v\<lparr>data := 0, sz := 0, cap := 0\<rparr>) w"
  have o0: "\<forall>j. j \<noteq> this \<longrightarrow> objs w0 j = objs w j" and b0: "blocks w0 = blocks w"
    and l0: "last_ptr w0 = last_ptr w"
    by (simp_all add: w0_def upd_def)
  show ?thesis
  proof (cases "sz (objs w0 other) = 0")
    case True
    with vc have "w' = w0" by (simp add: vector_copy_def Let_def w0_def [symmetric])
    with o0 b0 l0 show ?thesis by simp
  next
    case nz: False
    show ?thesis
    proof (cases "avail w0 < sz (objs w0 other)")
      case True
      with vc nz have "w' = w0"
        by (simp add: vector_copy_def Let_def w0_def [symmetric] bnd_def raw_alloc_def)
      with o0 b0 l0 show ?thesis by simp
    next
      case na: False
      define nd where "nd = Suc (last_ptr w)"
      define w1 where "w1 = w0\<lparr>blocks := (blocks w0)(nd \<mapsto> replicate (sz (objs w0 other)) None),
          last_ptr := nd, avail := avail w0 - sz (objs w0 other),
          trace := trace w0 @ [Alloc nd (sz (objs w0 other))]\<rparr>"
      have ra: "raw_alloc (sz (objs w0 other)) w0 = (Returns nd, w1)"
        using na l0 by (simp add: raw_alloc_def nd_def w1_def)
      define w2 where "w2 = upd this (\<lambda>v. v\<lparr>data := nd, cap := sz (objs w1 other)\<rparr>) w1"
      have o2: "\<forall>j. j \<noteq> this \<longrightarrow> objs w2 j = objs w j"
        and b2: "\<forall>q. q \<noteq> nd \<longrightarrow> blocks w2 q = blocks w q"
        and d2: "data (objs w2 this) = nd" and l2: "last_ptr w2 = nd"
        using o0 b0 by (simp_all add: w2_def w1_def upd_def)
      obtain i r2 w3 where cl:
        "copy_loop (data (objs w2 this)) (data (objs w2 other)) 0 (sz (objs w2 other)) w2 = (i, r2, w3)"
        by (cases "copy_loop (data (objs w2 this)) (data (objs w2 other)) 0 (sz (objs w2 other)) w2")
      have s3: "same_but nd w2 w3"
        using copy_loop_same [of nd w2 "data (objs w2 other)" 0 "sz (objs w2 other)"] cl d2 by simp
      then have o3: "\<forall>j. j \<noteq> this \<longrightarrow> objs w3 j = objs w j"
        and b3: "\<forall>q. q \<noteq> nd \<longrightarrow> blocks w3 q = blocks w q"
        and d3: "data (objs w3 this) = nd" and l3: "last_ptr w3 = nd"
        using o2 b2 d2 l2 by (simp_all add: same_but_def)
      have unf: "vector_copy this other w =
        (case (i, r2, w3) of
            (i, Throws e, w3) \<Rightarrow>
              bnd (destroy_loop (data (objs w3 this)) 0 i) (\<lambda>_.
              bnd (raw_free (data (objs w3 this))) (\<lambda>_ w4.
                (Throws e, upd this (\<lambda>v. v\<lparr>data := 0, cap := 0\<rparr>) w4))) w3
          | (i, Undefined, w3) \<Rightarrow> (Undefined, w3)
          | (i, Returns _, w3) \<Rightarrow>
              (Returns (), upd this (\<lambda>v. v\<lparr>sz := sz (objs w3 other)\<rparr>) w3))"
        using nz ra cl
        by (simp add: vector_copy_def Let_def w0_def [symmetric] bnd_def w2_def [symmetric])
      show ?thesis
      proof (cases r2)
        case (Returns u)
        with vc unf have "w' = upd this (\<lambda>v. v\<lparr>sz := sz (objs w3 other)\<rparr>) w3" by simp
        with o3 b3 l3 show ?thesis by (simp add: upd_def nd_def)
      next
        case Undefined
        with vc unf have "w' = w3" by simp
        with o3 b3 l3 show ?thesis by (simp add: nd_def)
      next
        case (Throws e)
        with vc unf have "bnd (destroy_loop (data (objs w3 this)) 0 i) (\<lambda>_.
              bnd (raw_free (data (objs w3 this))) (\<lambda>_ w4.
                (Throws e, upd this (\<lambda>v. v\<lparr>data := 0, cap := 0\<rparr>) w4))) w3 = (r, w')" by simp
        from teardown_fields [OF this] o3 b3 d3 l3 show ?thesis by (simp add: nd_def)
      qed
    qed
  qed
qed

lemma clear_no_throw: "fst (clear this w) \<noteq> Throws e"
proof -
  have "throws_in {} (bnd (destroy_loop (data (objs w this)) 0 (sz (objs w this)))
       (\<lambda>_ w1. (Returns (), upd this (\<lambda>v. v\<lparr>sz := 0\<rparr>) w1)))"
    by (intro throws_in_bnd throws_in_destroy_loop) (simp add: throws_in_def)
  then show ?thesis by (auto simp: clear_def dest: throws_in_D)
qed

lemma destructor_no_throw: "fst (destructor this w) \<noteq> Throws e"
proof -
  have "throws_in {} (\<lambda>w1.
       bnd (if data (objs w1 this) \<noteq> 0 then raw_free (data (objs w1 this)) else returns ())
         (\<lambda>_ w2. (Returns (), upd this (\<lambda>v. v\<lparr>data := 0, cap := 0\<rparr>) w2)) w1)"
    unfolding throws_in_def
  proof (intro allI impI)
    fix w1 e'
    assume t: "fst (bnd (if data (objs w1 this) \<noteq> 0 then raw_free (data (objs w1 this)) else returns ())
         (\<lambda>_ w2. (Returns (), upd this (\<lambda>v. v\<lparr>data := 0, cap := 0\<rparr>) w2)) w1) = Throws e'"
    have "throws_in {} (bnd (if data (objs w1 this) \<noteq> 0 then raw_free (data (objs w1 this)) else returns ())
         (\<lambda>_ w2. (Returns (), upd this (\<lambda>v. v\<lparr>data := 0, cap := 0\<rparr>) w2)))"
      by (intro throws_in_bnd) (simp_all add: throws_in_raw_free, simp_all add: throws_in_def returns_def)
    then show "e' \<in> {}" using t by (rule throws_in_D)
  qed
  moreover have "throws_in {} (clear this)"
    by (simp add: throws_in_def clear_no_throw)
  ultimately have "throws_in {} (destructor this)"
    unfolding destructor_def by (intro throws_in_bnd)
  then show ?thesis by (auto dest: throws_in_D)
qed

lemma operator_assign_throws:
  assumes ne: "this \<noteq> other" and t: "fst (operator_assign this other tmp w) = Throws e"
  shows "operator_assign this other tmp w = vector_copy tmp other w"
proof -
  obtain r w1 where vc: "vector_copy tmp other w = (r, w1)" by (cases "vector_copy tmp other w")
  show ?thesis
  proof (cases r)
    case (Returns u)
    have "operator_assign this other tmp w = destructor tmp (snd (vswap this tmp w1))"
      using ne vc Returns by (simp add: operator_assign_def bnd_def vswap_def Let_def)
    with t destructor_no_throw show ?thesis by metis
  next
    case (Throws e')
    with ne vc show ?thesis by (simp add: operator_assign_def bnd_def)
  next
    case Undefined
    with ne vc show ?thesis by (simp add: operator_assign_def bnd_def)
  qed
qed

lemma vector_copy_ok:
  fixes w :: "'a world" and this other
  defines "n \<equiv> sz (objs w other)"
  defines "nd \<equiv> Suc (last_ptr w)"
  defines "w' \<equiv> snd (vector_copy this other w)"
  assumes wf: "wf other w" and ne: "this \<noteq> other" and nt: "T_throws w = []"
    and av: "sz (objs w other) \<le> avail w"
  shows "fst (vector_copy this other w) = Returns ()"
    and "objs w' = (objs w)(this := \<lparr>data = (if n = 0 then 0 else nd), sz = n, cap = n\<rparr>)"
    and "contents this w' = contents other w"
    and "wf this w'"
    and "\<forall>q. q \<noteq> nd \<longrightarrow> blocks w' q = blocks w q"
    and "last_ptr w \<le> last_ptr w'"
    and "trace w' = trace w @ (if n = 0 then [] else Alloc nd n # map (Construct nd) [0..<n])"
proof -
  define w0 where "w0 = upd this (\<lambda>v. v\<lparr>data := 0, sz := 0, cap := 0\<rparr>) w"
  have o0: "objs w0 other = objs w other" using ne by (simp add: w0_def upd_def)
  have all: "fst (vector_copy this other w) = Returns () \<and>
    objs w' = (objs w)(this := \<lparr>data = (if n = 0 then 0 else nd), sz = n, cap = n\<rparr>) \<and>
    contents this w' = contents other w \<and> wf this w' \<and>
    (\<forall>q. q \<noteq> nd \<longrightarrow> blocks w' q = blocks w q) \<and> last_ptr w \<le> last_ptr w' \<and>
    trace w' = trace w @ (if n = 0 then [] else Alloc nd n # map (Construct nd) [0..<n])"
  proof (cases "n = 0")
    case True
    have res: "vector_copy this other w = (Returns (), w0)"
      using True o0 by (simp add: vector_copy_def Let_def w0_def [symmetric] n_def)
    have "contents other w = []"
      using True by (simp add: contents_def n_def split: option.splits)
    moreover have "contents this w0 = []"
      by (simp add: contents_def w0_def upd_def split: option.splits)
    moreover have "wf this w0"
      by (simp add: wf_def w0_def upd_def)
    ultimately show ?thesis
      using res True by (simp add: w'_def) (auto simp: w0_def upd_def)
  next
    case False
    have szc: "n \<le> cap (objs w other)" using wf by (simp add: wf_def n_def)
    with False have "cap (objs w other) \<noteq> 0" by simp
    from wf_block [OF wf this] obtain b where
      b: "blocks w (data (objs w other)) = Some b" "length b = cap (objs w other)"
        "\<forall>j<n. b ! j \<noteq> None" "map Some (contents other w) = take n b"
      unfolding n_def by blast
    have dn: "data (objs w other) \<noteq> nd" using wf by (simp add: wf_def nd_def)
    define w1 where "w1 = w0\<lparr>blocks := (blocks w0)(nd \<mapsto> replicate n None),
        last_ptr := nd, avail := avail w0 - n, trace := trace w0 @ [Alloc nd n]\<rparr>"
    have ra: "raw_alloc n w0 = (Returns nd, w1)"
      using av by (simp add: raw_alloc_def nd_def w1_def w0_def upd_def n_def)
    define w2 where "w2 = upd this (\<lambda>v. v\<lparr>data := nd, cap := n\<rparr>) w1"
    have o2: "objs w2 other = objs w other" "data (objs w2 this) = nd"
      using ne by (simp_all add: w2_def w1_def w0_def upd_def)
    define w3 where "w3 = w2\<lparr>blocks := (blocks w2)(nd \<mapsto> take n b),
        trace := trace w2 @ map (Construct nd) [0..<n]\<rparr>"
    have cl: "copy_loop nd (data (objs w other)) 0 n w2 = (n, Returns (), w3)"
      using copy_loop_ok [of n n 0 w2 "data (objs w other)" b nd "replicate n None"] b szc dn nt
      by (simp add: w3_def w2_def w1_def w0_def upd_def)
    have res: "vector_copy this other w = (Returns (), upd this (\<lambda>v. v\<lparr>sz := n\<rparr>) w3)"
    proof -
      have "objs w1 other = objs w other" "objs w3 other = objs w other"
        using ne by (simp_all add: w3_def w2_def w1_def w0_def upd_def)
      then show ?thesis
        using False o0 ra cl o2
        by (simp add: vector_copy_def Let_def w0_def [symmetric] bnd_def w2_def [symmetric]
            n_def [symmetric])
    qed
    have len: "length (contents other w) = n" using wf_length_contents [OF wf] by (simp add: n_def)
    have blk: "blocks w' nd = Some (take n b)" and f: "objs w' this = \<lparr>data = nd, sz = n, cap = n\<rparr>"
      using res by (simp_all add: w'_def upd_def w3_def w2_def w1_def w0_def)
    have c: "contents this w' = contents other w"
    proof -
      have "contents this w' = map the (take n b)" using blk f by (simp add: contents_def)
      also have "\<dots> = map the (map Some (contents other w))" using b(4) by simp
      finally show ?thesis by (simp add: comp_def)
    qed
    have "list_all (\<lambda>s. s \<noteq> None) (take n b)"
      using b(3) szc b(2) by (auto simp: list_all_length)
    then have "wf this w'"
      using res blk f szc b(2) False
      by (simp add: wf_def) (simp add: w'_def upd_def w3_def w2_def w1_def nd_def)
    with c show ?thesis
      using res False
      by (simp add: w'_def) (auto simp: upd_def w3_def w2_def w1_def w0_def nd_def)
  qed
  then show "fst (vector_copy this other w) = Returns ()"
    and "objs w' = (objs w)(this := \<lparr>data = (if n = 0 then 0 else nd), sz = n, cap = n\<rparr>)"
    and "contents this w' = contents other w"
    and "wf this w'"
    and "\<forall>q. q \<noteq> nd \<longrightarrow> blocks w' q = blocks w q"
    and "last_ptr w \<le> last_ptr w'"
    and "trace w' = trace w @ (if n = 0 then [] else Alloc nd n # map (Construct nd) [0..<n])"
    by blast+
qed

lemma two_failing_facts:
  "wf 0 two_failing" "wf 2 two_failing" "contents 2 two_failing = [7]"
  "objs two_failing 2 = \<lparr>data = 4, sz = 1, cap = 1\<rparr>"
  "blocks two_failing 4 = Some [Some 7]"
  by (simp_all add: two_failing_def wf_def contents_def)

lemma assign_two_failing:
  "fst (operator_assign 2 0 3 two_failing) = Throws T_exception"
  by (simp add: operator_assign_def vector_copy_def Let_def prim_defs two_failing_def)

subsection \<open>Which fields a call writes\<close>

lemma pres_bnd: "pres f \<Longrightarrow> (\<And>r. pres (g r)) \<Longrightarrow> pres (bnd f g)"
  unfolding pres_def bnd_def
  by (auto split: prod.splits outcome.splits) (metis snd_conv)+

lemma pres_same_but: "(\<And>w. same_but p w (snd (f w))) \<Longrightarrow> pres f"
  by (simp add: pres_def same_but_def)

lemma pres_elem: "pres (elem p i)"
  by (simp add: pres_def elem_world)

lemma pres_deref: "pres (deref r)"
  by (simp add: pres_def deref_world)

lemma pres_construct_at: "pres (construct_at p i x)"
  by (rule pres_same_but) (rule construct_at_same)

lemma pres_assign_at: "pres (assign_at p i x)"
  by (rule pres_same_but) (rule assign_at_same)

lemma pres_destroy_at: "pres (destroy_at p i)"
  by (rule pres_same_but) (rule destroy_at_same)

lemma pres_destroy_loop: "pres (destroy_loop p j n)"
  by (rule pres_same_but) (rule destroy_loop_same)

lemma pres_shift_right: "pres (shift_right p i ind)"
  by (rule pres_same_but) (rule shift_right_same)

lemma pres_shift_left: "pres (shift_left p i n)"
  by (rule pres_same_but) (rule shift_left_same)

lemma pres_raw_free: "pres (raw_free p)"
  by (simp add: pres_def raw_free_same)

lemma pres_raw_alloc: "pres (raw_alloc n)"
  by (simp add: pres_def raw_alloc_def)

lemma pres_returns: "pres (returns x)"
  by (simp add: pres_def returns_def)

lemma eff_commit: "eff this g (\<lambda>w. (R w, upd this g w))"
  by (simp add: eff_def upd_def)

lemma eff_pres: "pres f \<Longrightarrow> eff this g f"
  by (simp add: eff_def pres_def)

lemma eff_bnd: "pres f \<Longrightarrow> (\<And>r. eff this g (k r)) \<Longrightarrow> eff this g (bnd f k)"
proof -
  assume p: "pres f" and e: "\<And>r. eff this g (k r)"
  show ?thesis
    unfolding eff_def
  proof
    fix w
    obtain r w1 where f: "f w = (r, w1)" by (cases "f w")
    have o: "objs w1 = objs w" using p f by (auto simp: pres_def dest: spec [of _ w])
    show "objs (snd (bnd f k w)) = objs w \<or> objs (snd (bnd f k w)) = (objs w)(this := g (objs w this))"
    proof (cases r)
      case (Returns u)
      then have "bnd f k w = k u w1" using f by (simp add: bnd_def)
      with e [of u] o show ?thesis by (auto simp: eff_def dest: spec [of _ w1])
    next
      case (Throws x)
      then show ?thesis using f o by (simp add: bnd_def)
    next
      case Undefined
      then show ?thesis using f o by (simp add: bnd_def)
    qed
  qed
qed

lemma eff_D:
  "eff this g f \<Longrightarrow> objs (snd (f w)) = objs w \<or> objs (snd (f w)) = (objs w)(this := g (objs w this))"
  by (simp add: eff_def)

lemma grow_from:
  assumes "grow (if c \<noteq> 0 then c else 1) need = Some ncap"
  shows "c \<le> ncap" and "(c = 0 \<or> (\<exists>j. c = 2 ^ j)) \<Longrightarrow> \<exists>j. ncap = 2 ^ j"
proof -
  have pos: "0 < (if c \<noteq> 0 then c else (1::nat))" by simp
  from grow_Some [OF pos, of need] assms
  obtain k where k: "ncap = (if c \<noteq> 0 then c else 1) * 2 ^ k" by auto
  show "c \<le> ncap" using k by (simp split: if_splits)
  assume "c = 0 \<or> (\<exists>j. c = 2 ^ j)"
  then show "\<exists>j. ncap = 2 ^ j"
  proof
    assume "c = 0"
    with k show ?thesis by auto
  next
    assume "\<exists>j. c = 2 ^ j"
    then obtain j where "c = 2 ^ j" by blast
    with k have "ncap = 2 ^ (j + k)" by (simp add: power_add)
    then show ?thesis by blast
  qed
qed

lemma ensure_capacity_inv:
  assumes ec: "ensure_capacity this need w = (r, w1)" and inv: "\<forall>x. fields_ok (objs w x)"
  shows "\<forall>x. fields_ok (objs w1 x)"
    and "r = Returns () \<Longrightarrow> need \<le> cap (objs w1 this)"
    and "sz (objs w1 this) = sz (objs w this)"
    and "\<forall>x. pow2_cap (objs w x) \<Longrightarrow> \<forall>x. pow2_cap (objs w1 x)"
proof -
  from ensure_capacity_fields [OF ec]
  consider (same) "objs w1 = objs w" "r = Returns () \<longrightarrow> need \<le> cap (objs w this)"
    | (grown) ncap where "r = Returns ()"
        "grow (if cap (objs w this) \<noteq> 0 then cap (objs w this) else 1) need = Some ncap"
        "objs w1 = (objs w)(this := (objs w this)\<lparr>data := Suc (last_ptr w), cap := ncap\<rparr>)"
    by blast
  then have "(\<forall>x. fields_ok (objs w1 x)) \<and> (r = Returns () \<longrightarrow> need \<le> cap (objs w1 this)) \<and>
     sz (objs w1 this) = sz (objs w this) \<and>
     ((\<forall>x. pow2_cap (objs w x)) \<longrightarrow> (\<forall>x. pow2_cap (objs w1 x)))"
  proof cases
    case same
    with inv show ?thesis by simp
  next
    case grown
    note g = grow_ge [OF grown(2)] grow_from [OF grown(2)]
    have "sz (objs w this) \<le> ncap" using inv g(3) by (auto simp: fields_ok_def dest: spec [of _ this] intro: order_trans)
    then have "fields_ok ((objs w this)\<lparr>data := Suc (last_ptr w), cap := ncap\<rparr>)"
      using g(2) by (simp add: fields_ok_def)
    moreover have "(\<forall>x. pow2_cap (objs w x)) \<longrightarrow> pow2_cap ((objs w this)\<lparr>data := Suc (last_ptr w), cap := ncap\<rparr>)"
      using g(4) by (auto simp: pow2_cap_def dest: spec [of _ this])
    ultimately show ?thesis using inv grown g(1) by simp
  qed
  then show "\<forall>x. fields_ok (objs w1 x)"
    and "r = Returns () \<Longrightarrow> need \<le> cap (objs w1 this)"
    and "sz (objs w1 this) = sz (objs w this)"
    and "\<forall>x. pow2_cap (objs w x) \<Longrightarrow> \<forall>x. pow2_cap (objs w1 x)"
    by blast+
qed

subsection \<open>The invariants of the fields, call by call\<close>

lemma fields_ok_sz: "fields_ok v \<Longrightarrow> n \<le> cap v \<Longrightarrow> fields_ok (v\<lparr>sz := n\<rparr>)"
  by (simp add: fields_ok_def)

lemma pow2_cap_sz: "pow2_cap (v\<lparr>sz := n\<rparr>) = pow2_cap v"
  by (simp add: pow2_cap_def)

lemma inv_upd:
  assumes "objs w' = objs w \<or> objs w' = (objs w)(this := g (objs w this))"
    and "\<forall>x. fields_ok (objs w x)" and "fields_ok (g (objs w this))"
  shows "\<forall>x. fields_ok (objs w' x)"
  using assms by auto

lemma pow2_upd:
  assumes "objs w' = objs w \<or> objs w' = (objs w)(this := g (objs w this))"
    and "\<forall>x. pow2_cap (objs w x)" and "pow2_cap (g (objs w this))"
  shows "\<forall>x. pow2_cap (objs w' x)"
  using assms by auto

lemma push_back_inv:
  assumes inv: "\<forall>x. fields_ok (objs w x)"
  shows "\<forall>x. fields_ok (objs (snd (push_back this val w)) x)"
    and "\<forall>x. pow2_cap (objs w x) \<Longrightarrow> \<forall>x. pow2_cap (objs (snd (push_back this val w)) x)"
proof -
  obtain r w1 where ec: "ensure_capacity this (sz (objs w this) + 1) w = (r, w1)"
    by (cases "ensure_capacity this (sz (objs w this) + 1) w")
  note e = ensure_capacity_inv [OF ec inv]
  let ?g = "\<lambda>v. v\<lparr>sz := sz v + 1\<rparr>"
  let ?K = "bnd (deref val) (\<lambda>x.
       bnd (construct_at (data (objs w1 this)) (sz (objs w1 this)) x) (\<lambda>_ w2.
         (Returns (), upd this ?g w2)))"
  have K: "eff this ?g ?K"
    by (intro eff_bnd pres_deref pres_construct_at eff_commit)
  have "(\<forall>x. fields_ok (objs (snd (push_back this val w)) x)) \<and>
    ((\<forall>x. pow2_cap (objs w x)) \<longrightarrow> (\<forall>x. pow2_cap (objs (snd (push_back this val w)) x)))"
  proof (cases r)
    case (Returns u)
    then have pb: "push_back this val w = ?K w1" using ec by (simp add: push_back_def bnd_def)
    have "fields_ok (?g (objs w1 this))"
      using e(1,2,3) Returns by (auto simp: fields_ok_def dest: spec [of _ this])
    with inv_upd [where g = "\<lambda>v. v\<lparr>sz := sz v + 1\<rparr>", OF eff_D [OF K, of w1] e(1)] pow2_upd [where g = "\<lambda>v. v\<lparr>sz := sz v + 1\<rparr>", OF eff_D [OF K, of w1]] e(4)
    show ?thesis by (simp add: pb pow2_cap_sz)
  next
    case (Throws x)
    then have "snd (push_back this val w) = w1" using ec by (simp add: push_back_def bnd_def)
    with e show ?thesis by simp
  next
    case Undefined
    then have "snd (push_back this val w) = w1" using ec by (simp add: push_back_def bnd_def)
    with e show ?thesis by simp
  qed
  then show "\<forall>x. fields_ok (objs (snd (push_back this val w)) x)"
    and "\<forall>x. pow2_cap (objs w x) \<Longrightarrow> \<forall>x. pow2_cap (objs (snd (push_back this val w)) x)"
    by blast+
qed

lemma insert_idx_inv:
  assumes inv: "\<forall>x. fields_ok (objs w x)"
  shows "\<forall>x. fields_ok (objs (snd (insert_idx this ind val w)) x)"
    and "\<forall>x. pow2_cap (objs w x) \<Longrightarrow> \<forall>x. pow2_cap (objs (snd (insert_idx this ind val w)) x)"
proof -
  obtain r w1 where ec: "ensure_capacity this (sz (objs w this) + 1) w = (r, w1)"
    by (cases "ensure_capacity this (sz (objs w this) + 1) w")
  note e = ensure_capacity_inv [OF ec inv]
  let ?g = "\<lambda>v. v\<lparr>sz := sz v + 1\<rparr>"
  let ?A = "bnd (deref val) (\<lambda>x.
            bnd (construct_at (data (objs w1 this)) (sz (objs w1 this)) x) (\<lambda>_ w2.
              (Returns \<lparr>owner = Some this, idx = ind\<rparr>, upd this ?g w2)))"
  let ?B = "bnd (elem (data (objs w1 this)) (sz (objs w1 this) - 1)) (\<lambda>y.
            bnd (construct_at (data (objs w1 this)) (sz (objs w1 this)) y) (\<lambda>_.
            bnd (shift_right (data (objs w1 this)) (sz (objs w1 this) - 1) ind) (\<lambda>_.
            bnd (deref val) (\<lambda>x.
            bnd (assign_at (data (objs w1 this)) ind x) (\<lambda>_ w2.
              (Returns \<lparr>owner = Some this, idx = ind\<rparr>, upd this ?g w2))))))"
  have A: "eff this ?g ?A"
    by (intro eff_bnd pres_deref pres_construct_at eff_commit)
  have B: "eff this ?g ?B"
    by (intro eff_bnd pres_elem pres_deref pres_construct_at pres_shift_right pres_assign_at eff_commit)
  have "(\<forall>x. fields_ok (objs (snd (insert_idx this ind val w)) x)) \<and>
    ((\<forall>x. pow2_cap (objs w x)) \<longrightarrow> (\<forall>x. pow2_cap (objs (snd (insert_idx this ind val w)) x)))"
  proof (cases "sz (objs w this) < ind")
    case True
    then show ?thesis using inv by (simp add: insert_idx_def throw_def)
  next
    case False
    show ?thesis
    proof (cases r)
      case (Returns u)
      have g: "fields_ok (?g (objs w1 this))"
        using e(1,2,3) Returns by (auto simp: fields_ok_def dest: spec [of _ this])
      have ins: "insert_idx this ind val w = (if ind = sz (objs w1 this) then ?A w1 else ?B w1)"
        using False ec Returns by (simp add: insert_idx_def bnd_def)
      show ?thesis
      proof (cases "ind = sz (objs w1 this)")
        case True
        with ins have i: "insert_idx this ind val w = ?A w1" by simp
        from inv_upd [where g = "\<lambda>v. v\<lparr>sz := sz v + 1\<rparr>", OF eff_D [OF A, of w1] e(1) g] pow2_upd [where g = "\<lambda>v. v\<lparr>sz := sz v + 1\<rparr>", OF eff_D [OF A, of w1]] e(4)
        show ?thesis by (simp add: i pow2_cap_sz)
      next
        case False
        with ins have i: "insert_idx this ind val w = ?B w1" by simp
        from inv_upd [where g = "\<lambda>v. v\<lparr>sz := sz v + 1\<rparr>", OF eff_D [OF B, of w1] e(1) g] pow2_upd [where g = "\<lambda>v. v\<lparr>sz := sz v + 1\<rparr>", OF eff_D [OF B, of w1]] e(4)
        show ?thesis by (simp add: i pow2_cap_sz)
      qed
    next
      case (Throws x)
      then have "snd (insert_idx this ind val w) = w1"
        using False ec by (simp add: insert_idx_def bnd_def)
      with e show ?thesis by simp
    next
      case Undefined
      then have "snd (insert_idx this ind val w) = w1"
        using False ec by (simp add: insert_idx_def bnd_def)
      with e show ?thesis by simp
    qed
  qed
  then show "\<forall>x. fields_ok (objs (snd (insert_idx this ind val w)) x)"
    and "\<forall>x. pow2_cap (objs w x) \<Longrightarrow> \<forall>x. pow2_cap (objs (snd (insert_idx this ind val w)) x)"
    by blast+
qed

lemma insert_it_inv:
  assumes inv: "\<forall>x. fields_ok (objs w x)"
  shows "\<forall>x. fields_ok (objs (snd (insert_it this pos val w)) x)"
    and "\<forall>x. pow2_cap (objs w x) \<Longrightarrow> \<forall>x. pow2_cap (objs (snd (insert_it this pos val w)) x)"
  using insert_idx_inv [OF inv, of this "idx pos" val] inv
  by (simp_all add: insert_it_def throw_def)

lemma erase_it_inv:
  assumes inv: "\<forall>x. fields_ok (objs w x)"
  shows "\<forall>x. fields_ok (objs (snd (erase_it this pos w)) x)"
    and "\<forall>x. pow2_cap (objs w x) \<Longrightarrow> \<forall>x. pow2_cap (objs (snd (erase_it this pos w)) x)"
proof -
  let ?g = "\<lambda>v. v\<lparr>sz := sz v - 1\<rparr>"
  let ?A = "bnd (destroy_at (data (objs w this)) (sz (objs w this) - 1)) (\<lambda>_ w1.
            vend this (upd this ?g w1))"
  let ?B = "bnd (shift_left (data (objs w this)) (idx pos) (sz (objs w this))) (\<lambda>_.
          bnd (destroy_at (data (objs w this)) (sz (objs w this) - 1)) (\<lambda>_ w1.
            (Returns \<lparr>owner = Some this, idx = idx pos\<rparr>, upd this ?g w1)))"
  have v: "eff this ?g (\<lambda>w1. vend this (upd this ?g w1))"
    by (simp add: eff_def vend_def upd_def)
  have A: "eff this ?g ?A"
    by (intro eff_bnd pres_destroy_at v)
  have B: "eff this ?g ?B"
    by (intro eff_bnd pres_shift_left pres_destroy_at eff_commit)
  have g: "fields_ok (?g (objs w this))"
    using inv by (auto simp: fields_ok_def dest: spec [of _ this])
  have "erase_it this pos w = (Throws invalid_iterator, w) \<or> erase_it this pos w = ?A w \<or>
      erase_it this pos w = ?B w"
    by (simp add: erase_it_def Let_def throw_def)
  then have "(\<forall>x. fields_ok (objs (snd (erase_it this pos w)) x)) \<and>
    ((\<forall>x. pow2_cap (objs w x)) \<longrightarrow> (\<forall>x. pow2_cap (objs (snd (erase_it this pos w)) x)))"
  proof (elim disjE)
    assume "erase_it this pos w = (Throws invalid_iterator, w)"
    with inv show ?thesis by simp
  next
    assume i: "erase_it this pos w = ?A w"
    from inv_upd [where g = "\<lambda>v. v\<lparr>sz := sz v - 1\<rparr>", OF eff_D [OF A, of w] inv g] pow2_upd [where g = "\<lambda>v. v\<lparr>sz := sz v - 1\<rparr>", OF eff_D [OF A, of w]]
    show ?thesis by (simp add: i pow2_cap_sz)
  next
    assume i: "erase_it this pos w = ?B w"
    from inv_upd [where g = "\<lambda>v. v\<lparr>sz := sz v - 1\<rparr>", OF eff_D [OF B, of w] inv g] pow2_upd [where g = "\<lambda>v. v\<lparr>sz := sz v - 1\<rparr>", OF eff_D [OF B, of w]]
    show ?thesis by (simp add: i pow2_cap_sz)
  qed
  then show "\<forall>x. fields_ok (objs (snd (erase_it this pos w)) x)"
    and "\<forall>x. pow2_cap (objs w x) \<Longrightarrow> \<forall>x. pow2_cap (objs (snd (erase_it this pos w)) x)"
    by blast+
qed

lemma erase_idx_inv:
  assumes inv: "\<forall>x. fields_ok (objs w x)"
  shows "\<forall>x. fields_ok (objs (snd (erase_idx this ind w)) x)"
    and "\<forall>x. pow2_cap (objs w x) \<Longrightarrow> \<forall>x. pow2_cap (objs (snd (erase_idx this ind w)) x)"
  using erase_it_inv [OF inv, of this "\<lparr>owner = Some this, idx = ind\<rparr>"] inv
  by (simp_all add: erase_idx_def throw_def)

lemma pop_back_inv:
  assumes inv: "\<forall>x. fields_ok (objs w x)"
  shows "\<forall>x. fields_ok (objs (snd (pop_back this w)) x)"
    and "\<forall>x. pow2_cap (objs w x) \<Longrightarrow> \<forall>x. pow2_cap (objs (snd (pop_back this w)) x)"
proof -
  let ?w1 = "upd this (\<lambda>v. v\<lparr>sz := sz v - 1\<rparr>) w"
  have o: "objs (snd (destroy_at (data (objs ?w1 this)) (sz (objs ?w1 this)) ?w1)) = objs ?w1"
    by (rule pres_destroy_at [unfolded pres_def, rule_format])
  have "fields_ok ((objs w this)\<lparr>sz := sz (objs w this) - 1\<rparr>)"
    using inv by (auto simp: fields_ok_def dest: spec [of _ this])
  then have 1: "\<forall>x. fields_ok (objs ?w1 x)" using inv by (simp add: upd_def)
  have 2: "\<forall>x. pow2_cap (objs w x) \<Longrightarrow> \<forall>x. pow2_cap (objs ?w1 x)"
    by (simp add: upd_def pow2_cap_sz)
  show "\<forall>x. fields_ok (objs (snd (pop_back this w)) x)"
    using inv 1 o by (simp add: pop_back_def throw_def Let_def)
  show "\<forall>x. pow2_cap (objs w x) \<Longrightarrow> \<forall>x. pow2_cap (objs (snd (pop_back this w)) x)"
    using 2 o by (simp add: pop_back_def throw_def Let_def)
qed

lemma clear_eff: "objs (snd (clear this w)) = objs w \<or>
    objs (snd (clear this w)) = (objs w)(this := (objs w this)\<lparr>sz := 0\<rparr>)"
proof -
  have "eff this (\<lambda>v. v\<lparr>sz := 0\<rparr>) (bnd (destroy_loop (data (objs w this)) 0 (sz (objs w this)))
       (\<lambda>_ w1. (Returns (), upd this (\<lambda>v. v\<lparr>sz := 0\<rparr>) w1)))"
    by (intro eff_bnd pres_destroy_loop eff_commit)
  from eff_D [OF this, of w] show ?thesis by (simp add: clear_def)
qed

lemma clear_inv:
  assumes inv: "\<forall>x. fields_ok (objs w x)"
  shows "\<forall>x. fields_ok (objs (snd (clear this w)) x)"
    and "\<forall>x. pow2_cap (objs w x) \<Longrightarrow> \<forall>x. pow2_cap (objs (snd (clear this w)) x)"
proof -
  have "fields_ok ((objs w this)\<lparr>sz := 0\<rparr>)"
    using inv by (auto simp: fields_ok_def dest: spec [of _ this])
  with clear_eff [of this w] inv show "\<forall>x. fields_ok (objs (snd (clear this w)) x)" by auto
  show "\<forall>x. pow2_cap (objs w x) \<Longrightarrow> \<forall>x. pow2_cap (objs (snd (clear this w)) x)"
    using clear_eff [of this w] by (auto simp: pow2_cap_sz)
qed

lemma vswap_objs:
  "objs (snd (vswap this rhs w)) = (objs w)(this := objs w rhs, rhs := objs w this)"
  by (auto simp: vswap_def upd_def Let_def fun_eq_iff intro: vector.equality)

lemma vswap_inv:
  assumes inv: "\<forall>x. fields_ok (objs w x)"
  shows "\<forall>x. fields_ok (objs (snd (vswap this rhs w)) x)"
    and "\<forall>x. pow2_cap (objs w x) \<Longrightarrow> \<forall>x. pow2_cap (objs (snd (vswap this rhs w)) x)"
  using inv by (simp_all add: vswap_objs)

lemma vector_default_inv:
  assumes inv: "\<forall>x. fields_ok (objs w x)"
  shows "\<forall>x. fields_ok (objs (snd (vector_default this w)) x)"
    and "\<forall>x. pow2_cap (objs w x) \<Longrightarrow> \<forall>x. pow2_cap (objs (snd (vector_default this w)) x)"
  using inv by (simp_all add: vector_default_def upd_def fields_ok_def pow2_cap_def)

lemma vector_copy_this:
  assumes vc: "vector_copy this other w = (r, w')"
  shows "fields_ok (objs w' this)"
proof -
  define w0 where "w0 = upd this (\<lambda>v. v\<lparr>data := 0, sz := 0, cap := 0\<rparr>) w"
  have z: "objs w0 this = (objs w this)\<lparr>data := 0, sz := 0, cap := 0\<rparr>"
    by (simp add: w0_def upd_def)
  then have f0: "fields_ok (objs w0 this)" by (simp add: fields_ok_def)
  show ?thesis
  proof (cases "sz (objs w0 other) = 0")
    case True
    with vc have "w' = w0" by (simp add: vector_copy_def Let_def w0_def [symmetric])
    with f0 show ?thesis by simp
  next
    case nz: False
    then have ne: "other \<noteq> this" using z by auto
    let ?n = "sz (objs w0 other)"
    show ?thesis
    proof (cases "avail w0 < ?n")
      case True
      with vc nz have "w' = w0"
        by (simp add: vector_copy_def Let_def w0_def [symmetric] bnd_def raw_alloc_def)
      with f0 show ?thesis by simp
    next
      case na: False
      define nd where "nd = Suc (last_ptr w0)"
      define w1 where "w1 = w0\<lparr>blocks := (blocks w0)(nd \<mapsto> replicate ?n None),
          last_ptr := nd, avail := avail w0 - ?n, trace := trace w0 @ [Alloc nd ?n]\<rparr>"
      have ra: "raw_alloc ?n w0 = (Returns nd, w1)"
        using na by (simp add: raw_alloc_def nd_def w1_def)
      define w2 where "w2 = upd this (\<lambda>v. v\<lparr>data := nd, cap := sz (objs w1 other)\<rparr>) w1"
      have t2: "objs w2 this = (objs w this)\<lparr>data := nd, sz := 0, cap := ?n\<rparr>"
        and o2: "objs w2 other = objs w0 other"
        using ne z by (simp_all add: w2_def w1_def upd_def)
      obtain i r2 w3 where cl:
        "copy_loop (data (objs w2 this)) (data (objs w2 other)) 0 (sz (objs w2 other)) w2 = (i, r2, w3)"
        by (cases "copy_loop (data (objs w2 this)) (data (objs w2 other)) 0 (sz (objs w2 other)) w2")
      have "same_but (data (objs w2 this)) w2 w3"
        using copy_loop_same [of "data (objs w2 this)" w2 "data (objs w2 other)" 0 "sz (objs w2 other)"] cl
        by simp
      then have o3: "objs w3 = objs w2" by (simp add: same_but_def)
      have f3: "fields_ok (objs w3 this)"
        using nz by (simp add: o3 t2 fields_ok_def nd_def)
      have unf: "vector_copy this other w =
        (case (i, r2, w3) of
            (i, Throws e, w3) \<Rightarrow>
              bnd (destroy_loop (data (objs w3 this)) 0 i) (\<lambda>_.
              bnd (raw_free (data (objs w3 this))) (\<lambda>_ w4.
                (Throws e, upd this (\<lambda>v. v\<lparr>data := 0, cap := 0\<rparr>) w4))) w3
          | (i, Undefined, w3) \<Rightarrow> (Undefined, w3)
          | (i, Returns _, w3) \<Rightarrow>
              (Returns (), upd this (\<lambda>v. v\<lparr>sz := sz (objs w3 other)\<rparr>) w3))"
        using nz ra cl
        by (simp add: vector_copy_def Let_def w0_def [symmetric] bnd_def w2_def [symmetric])
      show ?thesis
      proof (cases r2)
        case (Returns u)
        with vc unf have "w' = upd this (\<lambda>v. v\<lparr>sz := sz (objs w3 other)\<rparr>) w3" by simp
        then show ?thesis using nz by (simp add: upd_def o3 t2 o2 fields_ok_def nd_def)
      next
        case Undefined
        with vc unf have "w' = w3" by simp
        with f3 show ?thesis by simp
      next
        case (Throws e)
        let ?g = "\<lambda>v. v\<lparr>data := 0, cap := 0\<rparr>"
        let ?T = "bnd (destroy_loop (data (objs w3 this)) 0 i) (\<lambda>_.
              bnd (raw_free (data (objs w3 this))) (\<lambda>_ w4.
                (Throws e :: unit outcome, upd this ?g w4)))"
        have T: "eff this ?g ?T"
          by (intro eff_bnd pres_destroy_loop pres_raw_free eff_commit)
        have w': "w' = snd (?T w3)" using vc unf Throws by simp
        have "fields_ok (?g (objs w3 this))"
          by (simp add: o3 t2 fields_ok_def)
        with eff_D [OF T, of w3] f3 show ?thesis by (auto simp: w')
      qed
    qed
  qed
qed

lemma vector_copy_inv:
  assumes inv: "\<forall>x. fields_ok (objs w x)"
  shows "\<forall>x. fields_ok (objs (snd (vector_copy this other w)) x)"
proof
  fix x
  note f = vector_copy_frame [of this other w "fst (vector_copy this other w)" "snd (vector_copy this other w)"]
  show "fields_ok (objs (snd (vector_copy this other w)) x)"
  proof (cases "x = this")
    case True
    then show ?thesis
      using vector_copy_this [of this other w "fst (vector_copy this other w)" "snd (vector_copy this other w)"]
      by simp
  next
    case False
    with f inv show ?thesis by simp
  qed
qed

lemma clear_Returns:
  assumes "clear this w = (Returns u, w')"
  shows "objs w' = (objs w)(this := (objs w this)\<lparr>sz := 0\<rparr>)"
proof -
  obtain r1 w1 where d: "destroy_loop (data (objs w this)) 0 (sz (objs w this)) w = (r1, w1)"
    by (cases "destroy_loop (data (objs w this)) 0 (sz (objs w this)) w")
  have o: "objs w1 = objs w"
    using pres_destroy_loop [unfolded pres_def, rule_format, of "data (objs w this)" 0 "sz (objs w this)" w] d
    by simp
  show ?thesis
    using assms d o by (cases r1) (auto simp: clear_def bnd_def upd_def)
qed

lemma destructor_inv:
  assumes inv: "\<forall>x. fields_ok (objs w x)"
  shows "\<forall>x. fields_ok (objs (snd (destructor this w)) x)"
proof -
  obtain rc w1 where c: "clear this w = (rc, w1)" by (cases "clear this w")
  have i1: "\<forall>x. fields_ok (objs w1 x)" using clear_inv(1) [OF inv, of this] c by simp
  show ?thesis
  proof (cases rc)
    case (Returns u)
    let ?g = "\<lambda>v. v\<lparr>data := 0, cap := 0\<rparr>"
    let ?K = "bnd (if data (objs w1 this) \<noteq> 0 then raw_free (data (objs w1 this)) else returns ())
         (\<lambda>_ w2. (Returns (), upd this ?g w2))"
    have K: "eff this ?g ?K"
      by (intro eff_bnd eff_commit) (simp add: pres_raw_free pres_returns)
    have d: "destructor this w = ?K w1"
      using c Returns by (simp add: destructor_def bnd_def)
    have "sz (objs w1 this) = 0" using clear_Returns [of this w u w1] c Returns by simp
    then have "fields_ok (?g (objs w1 this))" by (simp add: fields_ok_def)
    from inv_upd [where g = ?g, OF eff_D [OF K, of w1] i1 this] show ?thesis by (simp add: d)
  next
    case (Throws e)
    then have "snd (destructor this w) = w1" using c by (simp add: destructor_def bnd_def)
    with i1 show ?thesis by simp
  next
    case Undefined
    then have "snd (destructor this w) = w1" using c by (simp add: destructor_def bnd_def)
    with i1 show ?thesis by simp
  qed
qed

lemma operator_assign_inv:
  assumes inv: "\<forall>x. fields_ok (objs w x)"
  shows "\<forall>x. fields_ok (objs (snd (operator_assign this other tmp w)) x)"
proof (cases "this = other")
  case True
  with inv show ?thesis by (simp add: operator_assign_def)
next
  case False
  obtain r w1 where vc: "vector_copy tmp other w = (r, w1)" by (cases "vector_copy tmp other w")
  have i1: "\<forall>x. fields_ok (objs w1 x)" using vector_copy_inv [OF inv, of tmp other] vc by simp
  show ?thesis
  proof (cases r)
    case (Returns u)
    have "operator_assign this other tmp w = destructor tmp (snd (vswap this tmp w1))"
      using False vc Returns by (simp add: operator_assign_def bnd_def vswap_def Let_def)
    with destructor_inv [OF vswap_inv(1) [OF i1, of this tmp], of tmp] show ?thesis by simp
  next
    case (Throws e)
    then have "snd (operator_assign this other tmp w) = w1"
      using False vc by (simp add: operator_assign_def bnd_def)
    with i1 show ?thesis by simp
  next
    case Undefined
    then have "snd (operator_assign this other tmp w) = w1"
      using False vc by (simp add: operator_assign_def bnd_def)
    with i1 show ?thesis by simp
  qed
qed

subsection \<open>The invariants along a client program\<close>

lemma finish_Some: "finish k rw = Some (k', w') \<Longrightarrow> k' = k \<and> w' = snd rw"
  by (cases rw) (auto simp: finish_def split: outcome.splits)

lemma exec_inv:
  assumes ex: "exec c (k, w) = Some (k', w')" and inv: "\<forall>x. fields_ok (objs w x)"
  shows "\<forall>x. fields_ok (objs w' x)"
proof (cases c)
  case Decl
  with ex finish_Some [of "Suc k" "vector_default k w" k' w'] vector_default_inv(1) [OF inv, of k]
  show ?thesis by simp
next
  case (DeclCopy other)
  with ex have "w' = snd (vector_copy k other w)"
    by (auto split: if_splits prod.splits outcome.splits)
  with vector_copy_inv [OF inv, of k other] show ?thesis by simp
next
  case (CopyAssign x other)
  with ex finish_Some [of k "operator_assign x other k w" k' w'] operator_assign_inv [OF inv, of x other k]
  show ?thesis by (simp split: if_splits)
next
  case (Swap x rhs)
  with ex finish_Some [of k "vswap x rhs w" k' w'] vswap_inv(1) [OF inv, of x rhs]
  show ?thesis by (simp split: if_splits)
next
  case (PushBack x v)
  with ex finish_Some [of k "push_back x v w" k' w'] push_back_inv(1) [OF inv, of x v]
  show ?thesis by (simp split: if_splits)
next
  case (PopBack x)
  with ex finish_Some [of k "pop_back x w" k' w'] pop_back_inv(1) [OF inv, of x]
  show ?thesis by (simp split: if_splits)
next
  case (InsertAt x ind v)
  with ex finish_Some [of k "insert_idx x ind v w" k' w'] insert_idx_inv(1) [OF inv, of x ind v]
  show ?thesis by (simp split: if_splits)
next
  case (InsertIt x pos v)
  with ex finish_Some [of k "insert_it x pos v w" k' w'] insert_it_inv(1) [OF inv, of x pos v]
  show ?thesis by (simp split: if_splits)
next
  case (EraseAt x ind)
  with ex finish_Some [of k "erase_idx x ind w" k' w'] erase_idx_inv(1) [OF inv, of x ind]
  show ?thesis by (simp split: if_splits)
next
  case (EraseIt x pos)
  with ex finish_Some [of k "erase_it x pos w" k' w'] erase_it_inv(1) [OF inv, of x pos]
  show ?thesis by (simp split: if_splits)
next
  case (Clear x)
  with ex finish_Some [of k "clear x w" k' w'] clear_inv(1) [OF inv, of x]
  show ?thesis by (simp split: if_splits)
qed

lemma exec_pow2:
  assumes ex: "exec c (k, w) = Some (k', w')" and nc: "\<not> copies c"
    and inv: "\<forall>x. fields_ok (objs w x)" and p: "\<forall>x. pow2_cap (objs w x)"
  shows "\<forall>x. pow2_cap (objs w' x)"
proof (cases c)
  case Decl
  with ex finish_Some [of "Suc k" "vector_default k w" k' w'] vector_default_inv(2) [OF inv p, of k]
  show ?thesis by simp
next
  case (DeclCopy other)
  with nc show ?thesis by simp
next
  case (CopyAssign x other)
  with nc show ?thesis by simp
next
  case (Swap x rhs)
  with ex finish_Some [of k "vswap x rhs w" k' w'] vswap_inv(2) [OF inv p, of x rhs]
  show ?thesis by (simp split: if_splits)
next
  case (PushBack x v)
  with ex finish_Some [of k "push_back x v w" k' w'] push_back_inv(2) [OF inv p, of x v]
  show ?thesis by (simp split: if_splits)
next
  case (PopBack x)
  with ex finish_Some [of k "pop_back x w" k' w'] pop_back_inv(2) [OF inv p, of x]
  show ?thesis by (simp split: if_splits)
next
  case (InsertAt x ind v)
  with ex finish_Some [of k "insert_idx x ind v w" k' w'] insert_idx_inv(2) [OF inv p, of x ind v]
  show ?thesis by (simp split: if_splits)
next
  case (InsertIt x pos v)
  with ex finish_Some [of k "insert_it x pos v w" k' w'] insert_it_inv(2) [OF inv p, of x pos v]
  show ?thesis by (simp split: if_splits)
next
  case (EraseAt x ind)
  with ex finish_Some [of k "erase_idx x ind w" k' w'] erase_idx_inv(2) [OF inv p, of x ind]
  show ?thesis by (simp split: if_splits)
next
  case (EraseIt x pos)
  with ex finish_Some [of k "erase_it x pos w" k' w'] erase_it_inv(2) [OF inv p, of x pos]
  show ?thesis by (simp split: if_splits)
next
  case (Clear x)
  with ex finish_Some [of k "clear x w" k' w'] clear_inv(2) [OF inv p, of x]
  show ?thesis by (simp split: if_splits)
qed

lemma run_inv:
  "run cs (k, w) = Some (k', w') \<Longrightarrow> \<forall>x. fields_ok (objs w x) \<Longrightarrow> \<forall>x. fields_ok (objs w' x)"
proof (induction cs arbitrary: k w)
  case Nil
  then show ?case by simp
next
  case (Cons c cs)
  from Cons.prems(1) obtain k1 w1 where e: "exec c (k, w) = Some (k1, w1)"
    and r: "run cs (k1, w1) = Some (k', w')"
    by (auto split: option.splits)
  from exec_inv [OF e Cons.prems(2)] have "\<forall>x. fields_ok (objs w1 x)" .
  from Cons.IH [OF r this] show ?case .
qed

lemma run_pow2:
  "run cs (k, w) = Some (k', w') \<Longrightarrow> \<not> list_ex copies cs \<Longrightarrow>
   \<forall>x. fields_ok (objs w x) \<Longrightarrow> \<forall>x. pow2_cap (objs w x) \<Longrightarrow> \<forall>x. pow2_cap (objs w' x)"
proof (induction cs arbitrary: k w)
  case Nil
  then show ?case by simp
next
  case (Cons c cs)
  from Cons.prems(1) obtain k1 w1 where e: "exec c (k, w) = Some (k1, w1)"
    and r: "run cs (k1, w1) = Some (k', w')"
    by (auto split: option.splits)
  from Cons.prems(2) have nc: "\<not> copies c" and ncs: "\<not> list_ex copies cs" by simp_all
  from exec_inv [OF e Cons.prems(3)] have i1: "\<forall>x. fields_ok (objs w1 x)" .
  from exec_pow2 [OF e nc Cons.prems(3,4)] have p1: "\<forall>x. pow2_cap (objs w1 x)" .
  from Cons.IH [OF r ncs i1 p1] show ?case .
qed

subsection \<open>Running the example programs\<close>

lemma push_program_run: "run push_program (0, initial_world 100 []) = Some (1, three)"
proof -
  have 0: "vector_default 0 (initial_world 100 [] :: nat world) = (Returns (), initial_world 100 [])"
    by (simp add: vector_default_def upd_def initial_world_def fun_eq_iff)
  have 1: "push_back 0 (Outside 1) (initial_world 100 []) = (Returns (),
    \<lparr>objs = (\<lambda>_. \<lparr>data = 0, sz = 0, cap = 0\<rparr>)(0 := \<lparr>data = 1, sz = 1, cap = 1\<rparr>),
     blocks = (\<lambda>_. None)(1 \<mapsto> [Some (1::nat)]), last_ptr = 1, avail = 99, T_throws = [],
     trace = [Alloc 1 1, Construct 1 0]\<rparr>)"
    by (simp add: push_back_def ensure_capacity_def initial_world_def prim_defs)
  have 2: "push_back 0 (Outside 2)
    \<lparr>objs = (\<lambda>_. \<lparr>data = 0, sz = 0, cap = 0\<rparr>)(0 := \<lparr>data = 1, sz = 1, cap = 1\<rparr>),
     blocks = (\<lambda>_. None)(1 \<mapsto> [Some (1::nat)]), last_ptr = 1, avail = 99, T_throws = [],
     trace = [Alloc 1 1, Construct 1 0]\<rparr> = (Returns (),
    \<lparr>objs = (\<lambda>_. \<lparr>data = 0, sz = 0, cap = 0\<rparr>)(0 := \<lparr>data = 2, sz = 2, cap = 2\<rparr>),
     blocks = (\<lambda>_. None)(2 \<mapsto> [Some (1::nat), Some 2]), last_ptr = 2, avail = 98, T_throws = [],
     trace = [Alloc 1 1, Construct 1 0, Alloc 2 2, Construct 2 0, Destroy 1 0, Free 1, Construct 2 1]\<rparr>)"
    by (simp add: push_back_def ensure_capacity_def prim_defs fun_upd_twist)
  have 3: "push_back 0 (Outside 3)
    \<lparr>objs = (\<lambda>_. \<lparr>data = 0, sz = 0, cap = 0\<rparr>)(0 := \<lparr>data = 2, sz = 2, cap = 2\<rparr>),
     blocks = (\<lambda>_. None)(2 \<mapsto> [Some (1::nat), Some 2]), last_ptr = 2, avail = 98, T_throws = [],
     trace = [Alloc 1 1, Construct 1 0, Alloc 2 2, Construct 2 0, Destroy 1 0, Free 1, Construct 2 1]\<rparr>
     = (Returns (), three)"
    by (simp add: push_back_def ensure_capacity_def prim_defs three_def fun_upd_twist)
  show ?thesis
    unfolding push_program_def
    by (simp add: 0 1 [simplified] 2 [simplified] 3 [simplified] finish_def)
qed

lemma copy_three: "vector_copy 1 0 three = (Returns (), three_copied)"
  by (simp add: vector_copy_def Let_def prim_defs three_copied_def three_def fun_upd_twist)

lemma run_append:
  "run (cs @ ds) s = (case run cs s of None \<Rightarrow> None | Some s' \<Rightarrow> run ds s')"
  by (induction cs arbitrary: s) (auto split: option.splits)

lemma copy_program_run: "run copy_program (0, initial_world 100 []) = Some (2, three_copied)"
  unfolding copy_program_def run_append push_program_run
  by (simp add: copy_three [simplified])

lemma three_not_power_of_two: "(3::nat) \<noteq> 2 ^ j"
proof
  assume a: "(3::nat) = 2 ^ j"
  show False
  proof (cases j)
    case 0
    with a show False by simp
  next
    case (Suc i)
    then have "even ((2::nat) ^ j)" by simp
    with a show False by simp
  qed
qed

subsection \<open>Which allocations a call records\<close>

































subsection \<open>The world with no storage for a copy\<close>


section \<open>The claims\<close>

subsection \<open>Insertion at an index\<close>




subsection \<open>Insertion at the end and \<open>push_back\<close>\<close>

text \<open>
  Claim C7. In every world, for every vector and every argument, \<open>insert(size(), v)\<close>
  and \<open>push_back(v)\<close> leave the same world (the same elements, size, capacity, buffer,
  trace) and end the same way: both return, or both throw the same exception; the only
  difference is that \<open>insert\<close> returns an iterator to the old end.
\<close>

theorem insert_at_size_is_push_back:
  "snd (insert_idx this (sz (objs w this)) val w) = snd (push_back this val w) \<and>
   fst (insert_idx this (sz (objs w this)) val w) =
     (case fst (push_back this val w) of
        Returns _ \<Rightarrow> Returns \<lparr>owner = Some this, idx = sz (objs w this)\<rparr>
      | Throws e \<Rightarrow> Throws e
      | Undefined \<Rightarrow> Undefined)"
proof -
  obtain r w1 where ec: "ensure_capacity this (sz (objs w this) + 1) w = (r, w1)"
    by (cases "ensure_capacity this (sz (objs w this) + 1) w")
  have s: "sz (objs w1 this) = sz (objs w this)"
    using ensure_capacity_sz [of this "sz (objs w this) + 1" w] ec by simp
  show ?thesis
    using ec s
    by (cases r) (auto simp: insert_idx_def push_back_def bnd_def split: prod.splits outcome.splits)
qed

subsection \<open>Iterators beyond the end\<close>

text \<open>
  Claim C9. An iterator that belongs to this vector and whose index is greater than
  \<open>sz\<close> passes the owner check of \<open>insert(iterator, v)\<close>; the call then throws
  \<open>index_out_of_bound\<close>, not \<open>invalid_iterator\<close>, and the world is unchanged.
\<close>

theorem insert_it_beyond_end:
  "owner pos = Some this \<Longrightarrow> sz (objs w this) < idx pos \<Longrightarrow>
   insert_it this pos val w = (Throws index_out_of_bound, w)"
  by (simp add: insert_it_def insert_idx_def throw_def)

theorem insert_it_beyond_end_witness:
  "owner \<lparr>owner = Some 0, idx = 5\<rparr> = Some 0 \<and> sz (objs three 0) < idx \<lparr>owner = Some 0, idx = 5\<rparr> \<and>
   insert_it 0 \<lparr>owner = Some 0, idx = 5\<rparr> (Outside 7) three = (Throws index_out_of_bound, three)"
  using insert_it_beyond_end [of "\<lparr>owner = Some 0, idx = 5\<rparr>" 0 three "Outside 7"]
  by (simp add: three_facts)

subsection \<open>Self-assignment\<close>

text \<open>
  Claim C10. \<open>v = v\<close> returns at once: the world after it is the world before it, so no
  element is copied or destroyed (the trace is the same) and buffer, size, capacity and
  elements are unchanged.
\<close>

theorem self_assignment_is_no_op:
  "operator_assign this this tmp w = (Returns (), w)"
  by (simp add: operator_assign_def)

subsection \<open>Erasure at an index\<close>

text \<open>
  Claim C2. For every index \<open>ind \<ge> sz\<close>, \<open>erase(ind)\<close> throws \<open>index_out_of_bound\<close> and the
  world is unchanged. For a well-formed vector holding \<open>xs\<close>, an element type whose
  assignment does not throw, and every \<open>ind < sz\<close>: \<open>erase(ind)\<close> assigns slots
  \<open>ind\<close> up to \<open>sz - 2\<close>, each from the slot after it, in ascending order, then destroys
  slot \<open>sz - 1\<close> (the trace grows by exactly these operations); the vector then holds
  \<open>take ind xs @ drop (ind + 1) xs\<close> with size \<open>sz - 1\<close>; the iterator returned points to
  \<open>ind\<close>, and it equals \<open>end()\<close> of the vector after the call exactly when \<open>ind\<close> was
  the last index.
\<close>

theorem erase_at_index:
  "(sz (objs w this) \<le> ind \<longrightarrow> erase_idx this ind w = (Throws index_out_of_bound, w)) \<and>
   (wf this w \<and> T_throws w = [] \<and> ind < sz (objs w this) \<longrightarrow>
      (let n = sz (objs w this);
           p = data (objs w this);
           w' = snd (erase_idx this ind w)
       in fst (erase_idx this ind w) = Returns \<lparr>owner = Some this, idx = ind\<rparr> \<and>
          contents this w' = take ind (contents this w) @ drop (Suc ind) (contents this w) \<and>
          sz (objs w' this) = n - 1 \<and> wf this w' \<and>
          trace w' = trace w @ map (Assign p) [ind..<n - 1] @ [Destroy p (n - 1)] \<and>
          fst (vend this w') = Returns \<lparr>owner = Some this, idx = n - 1\<rparr> \<and>
          iterator_eq \<lparr>owner = Some this, idx = ind\<rparr> \<lparr>owner = Some this, idx = n - 1\<rparr> = (ind = n - 1)))"
proof (intro conjI impI)
  assume "sz (objs w this) \<le> ind"
  then show "erase_idx this ind w = (Throws index_out_of_bound, w)"
    by (simp add: erase_idx_def throw_def)
next
  assume a: "wf this w \<and> T_throws w = [] \<and> ind < sz (objs w this)"
  then have e: "erase_idx this ind w = erase_it this \<lparr>owner = Some this, idx = ind\<rparr> w"
    by (simp add: erase_idx_def)
  from a have wf: "wf this w" and nt: "T_throws w = []" and ind: "ind < sz (objs w this)"
    by blast+
  note r = erase_it_ok [OF wf nt ind]
  show "let n = sz (objs w this);
           p = data (objs w this);
           w' = snd (erase_idx this ind w)
       in fst (erase_idx this ind w) = Returns \<lparr>owner = Some this, idx = ind\<rparr> \<and>
          contents this w' = take ind (contents this w) @ drop (Suc ind) (contents this w) \<and>
          sz (objs w' this) = n - 1 \<and> wf this w' \<and>
          trace w' = trace w @ map (Assign p) [ind..<n - 1] @ [Destroy p (n - 1)] \<and>
          fst (vend this w') = Returns \<lparr>owner = Some this, idx = n - 1\<rparr> \<and>
          iterator_eq \<lparr>owner = Some this, idx = ind\<rparr> \<lparr>owner = Some this, idx = n - 1\<rparr> = (ind = n - 1)"
    using r by (simp add: Let_def e vend_def iterator_eq_def)
qed

theorem erase_at_index_witness:
  "sz (objs three 0) \<le> 3 \<and> erase_idx 0 3 three = (Throws index_out_of_bound, three) \<and>
   wf 0 three \<and> T_throws three = [] \<and> 0 < sz (objs three 0) \<and>
   fst (erase_idx 0 0 three) = Returns \<lparr>owner = Some 0, idx = 0\<rparr> \<and>
   contents 0 (snd (erase_idx 0 0 three)) = [2, 3] \<and>
   sz (objs (snd (erase_idx 0 0 three)) 0) = 2 \<and>
   trace (snd (erase_idx 0 0 three)) = trace three @ [Assign 3 0, Assign 3 1, Destroy 3 2] \<and>
   \<not> iterator_eq \<lparr>owner = Some 0, idx = 0\<rparr> \<lparr>owner = Some 0, idx = 2\<rparr>"
proof -
  have h: "sz (objs three 0) \<le> 3 \<and> wf 0 three \<and> T_throws three = [] \<and> 0 < sz (objs three 0)"
    by (simp add: three_facts)
  show ?thesis
    using erase_at_index [of three 0 3] erase_at_index [of three 0 0] h
    by (simp add: Let_def three_facts upt_rec)
qed

subsection \<open>Growth of the buffer\<close>

text \<open>
  Claim C3. Let a well-formed vector need a capacity \<open>need > cap\<close>, let \<open>k\<close> be the
  number of doublings after which \<open>max 1 cap\<close> reaches \<open>need\<close> (the least \<open>k\<close> with
  \<open>need \<le> max 1 cap * 2 ^ k\<close>), and let the allocator have that much storage. Then
  \<open>ensure_capacity(need)\<close> allocates a buffer of \<open>ncap = max 1 cap * 2 ^ k\<close> slots and
  copy-constructs the elements into it in index order. When no copy throws, it destroys
  the old elements, releases the old buffer and adopts the new buffer and \<open>ncap\<close>; the
  elements are the same. When the copy of element \<open>i\<close> throws (after \<open>i\<close> copies that
  succeeded), it destroys slots \<open>0\<close> to \<open>i - 1\<close> of the new buffer, releases the new
  buffer and rethrows: the fields of every vector are as before, every block that
  existed is as before, and the new block is gone.
\<close>

theorem ensure_capacity_growth:
  "wf this w \<and> cap (objs w this) < need \<and>
   need \<le> max 1 (cap (objs w this)) * 2 ^ k \<and>
   (\<forall>j<k. max 1 (cap (objs w this)) * 2 ^ j < need) \<and>
   max 1 (cap (objs w this)) * 2 ^ k \<le> avail w \<longrightarrow>
     (let n = sz (objs w this);
          d = data (objs w this);
          ncap = max 1 (cap (objs w this)) * 2 ^ k;
          nd = Suc (last_ptr w);
          w' = snd (ensure_capacity this need w)
      in (T_throws w = [] \<longrightarrow>
            fst (ensure_capacity this need w) = Returns () \<and>
            objs w' = (objs w)(this := (objs w this)\<lparr>data := nd, cap := ncap\<rparr>) \<and>
            contents this w' = contents this w \<and> wf this w' \<and>
            trace w' = trace w @ Alloc nd ncap # map (Construct nd) [0..<n]
               @ map (Destroy d) [0..<n] @ (if d = 0 then [] else [Free d])) \<and>
         (\<forall>i rest. i < n \<and> T_throws w = replicate i False @ True # rest \<longrightarrow>
            fst (ensure_capacity this need w) = Throws T_exception \<and>
            objs w' = objs w \<and> blocks w' = (blocks w)(nd := None) \<and>
            contents this w' = contents this w \<and> wf this w' \<and>
            trace w' = trace w @ Alloc nd ncap # map (Construct nd) [0..<i]
               @ map (Destroy nd) [0..<i] @ [Free nd]))"
proof (intro impI)
  assume a: "wf this w \<and> cap (objs w this) < need \<and>
   need \<le> max 1 (cap (objs w this)) * 2 ^ k \<and>
   (\<forall>j<k. max 1 (cap (objs w this)) * 2 ^ j < need) \<and>
   max 1 (cap (objs w this)) * 2 ^ k \<le> avail w"
  let ?c = "cap (objs w this)"
  let ?ncap = "max 1 ?c * 2 ^ k"
  have m: "(if ?c \<noteq> 0 then ?c else 1) = max 1 ?c" by (simp add: max_def)
  from a have wf: "wf this w" and lt: "?c < need" and av: "?ncap \<le> avail w" by blast+
  have g: "grow (if ?c \<noteq> 0 then ?c else 1) need = Some ?ncap"
    unfolding m using a by (intro grow_least) auto
  have dn: "data (objs w this) \<noteq> Suc (last_ptr w)" using wf by (simp add: wf_def)
  have ok: "T_throws w = [] \<Longrightarrow>
      fst (ensure_capacity this need w) = Returns () \<and>
      objs (snd (ensure_capacity this need w)) =
        (objs w)(this := (objs w this)\<lparr>data := Suc (last_ptr w), cap := ?ncap\<rparr>) \<and>
      contents this (snd (ensure_capacity this need w)) = contents this w \<and>
      wf this (snd (ensure_capacity this need w)) \<and>
      trace (snd (ensure_capacity this need w)) =
        trace w @ Alloc (Suc (last_ptr w)) ?ncap # map (Construct (Suc (last_ptr w))) [0..<sz (objs w this)]
          @ map (Destroy (data (objs w this))) [0..<sz (objs w this)]
          @ (if data (objs w this) = 0 then [] else [Free (data (objs w this))])"
  proof -
    assume nt: "T_throws w = []"
    have "\<exists>ncap. grow (if ?c \<noteq> 0 then ?c else 1) need = Some ncap \<and> ncap \<le> avail w"
      using g av by blast
    then have av': "?c < need \<Longrightarrow>
        \<exists>ncap. grow (if ?c \<noteq> 0 then ?c else 1) need = Some ncap \<and> ncap \<le> avail w" .
    note r = ensure_capacity_grow [OF wf lt g av nt]
    note p = ensure_capacity_post [OF wf nt av']
    show ?thesis using r(1,2,7) p(2,3) by simp
  qed
  have bad: "\<And>i rest. i < sz (objs w this) \<Longrightarrow> T_throws w = replicate i False @ True # rest \<Longrightarrow>
      fst (ensure_capacity this need w) = Throws T_exception \<and>
      objs (snd (ensure_capacity this need w)) = objs w \<and>
      blocks (snd (ensure_capacity this need w)) = (blocks w)(Suc (last_ptr w) := None) \<and>
      contents this (snd (ensure_capacity this need w)) = contents this w \<and>
      wf this (snd (ensure_capacity this need w)) \<and>
      trace (snd (ensure_capacity this need w)) =
        trace w @ Alloc (Suc (last_ptr w)) ?ncap # map (Construct (Suc (last_ptr w))) [0..<i]
          @ map (Destroy (Suc (last_ptr w))) [0..<i] @ [Free (Suc (last_ptr w))]"
  proof -
    fix i rest
    assume i: "i < sz (objs w this)" and plan: "T_throws w = replicate i False @ True # rest"
    note r = ensure_capacity_fail [OF wf lt g av i plan]
    have o: "objs (snd (ensure_capacity this need w)) = objs w" by (simp add: r)
    have bl: "blocks (snd (ensure_capacity this need w)) (data (objs w this)) = blocks w (data (objs w this))"
      using dn by (simp add: r)
    have lp: "last_ptr (snd (ensure_capacity this need w)) = Suc (last_ptr w)" by (simp add: r)
    have "contents this (snd (ensure_capacity this need w)) = contents this w"
      by (rule contents_cong) (simp_all add: o bl)
    moreover have "wf this (snd (ensure_capacity this need w))"
      by (rule wf_cong [OF wf]) (simp_all add: o bl lp)
    ultimately show "fst (ensure_capacity this need w) = Throws T_exception \<and>
      objs (snd (ensure_capacity this need w)) = objs w \<and>
      blocks (snd (ensure_capacity this need w)) = (blocks w)(Suc (last_ptr w) := None) \<and>
      contents this (snd (ensure_capacity this need w)) = contents this w \<and>
      wf this (snd (ensure_capacity this need w)) \<and>
      trace (snd (ensure_capacity this need w)) =
        trace w @ Alloc (Suc (last_ptr w)) ?ncap # map (Construct (Suc (last_ptr w))) [0..<i]
          @ map (Destroy (Suc (last_ptr w))) [0..<i] @ [Free (Suc (last_ptr w))]"
      by (simp add: r)
  qed
  show "let n = sz (objs w this);
          d = data (objs w this);
          ncap = max 1 (cap (objs w this)) * 2 ^ k;
          nd = Suc (last_ptr w);
          w' = snd (ensure_capacity this need w)
      in (T_throws w = [] \<longrightarrow>
            fst (ensure_capacity this need w) = Returns () \<and>
            objs w' = (objs w)(this := (objs w this)\<lparr>data := nd, cap := ncap\<rparr>) \<and>
            contents this w' = contents this w \<and> wf this w' \<and>
            trace w' = trace w @ Alloc nd ncap # map (Construct nd) [0..<n]
               @ map (Destroy d) [0..<n] @ (if d = 0 then [] else [Free d])) \<and>
         (\<forall>i rest. i < n \<and> T_throws w = replicate i False @ True # rest \<longrightarrow>
            fst (ensure_capacity this need w) = Throws T_exception \<and>
            objs w' = objs w \<and> blocks w' = (blocks w)(nd := None) \<and>
            contents this w' = contents this w \<and> wf this w' \<and>
            trace w' = trace w @ Alloc nd ncap # map (Construct nd) [0..<i]
               @ map (Destroy nd) [0..<i] @ [Free nd])"
    unfolding Let_def using ok bad by blast
qed

theorem ensure_capacity_growth_witness:
  "wf 0 three \<and> cap (objs three 0) < 5 \<and> 5 \<le> max 1 (cap (objs three 0)) * 2 ^ 1 \<and>
   max 1 (cap (objs three 0)) * 2 ^ 0 < 5 \<and> max 1 (cap (objs three 0)) * 2 ^ 1 \<le> avail three \<and>
   T_throws three = [] \<and>
   fst (ensure_capacity 0 5 three) = Returns () \<and>
   objs (snd (ensure_capacity 0 5 three)) 0 = \<lparr>data = 4, sz = 3, cap = 8\<rparr> \<and>
   contents 0 (snd (ensure_capacity 0 5 three)) = [1, 2, 3] \<and>
   trace (snd (ensure_capacity 0 5 three)) =
     trace three @ [Alloc 4 8, Construct 4 0, Construct 4 1, Construct 4 2,
       Destroy 3 0, Destroy 3 1, Destroy 3 2, Free 3] \<and>
   wf 0 three_failing \<and> (1::nat) < sz (objs three_failing 0) \<and>
   T_throws three_failing = replicate 1 False @ True # [] \<and>
   fst (ensure_capacity 0 5 three_failing) = Throws T_exception \<and>
   objs (snd (ensure_capacity 0 5 three_failing)) = objs three_failing \<and>
   blocks (snd (ensure_capacity 0 5 three_failing)) = (blocks three_failing)(4 := None) \<and>
   contents 0 (snd (ensure_capacity 0 5 three_failing)) = [1, 2, 3] \<and>
   trace (snd (ensure_capacity 0 5 three_failing)) =
     trace three_failing @ [Alloc 4 8, Construct 4 0, Destroy 4 0, Free 4]"
proof -
  have h: "wf 0 three \<and> cap (objs three 0) < 5 \<and> 5 \<le> max 1 (cap (objs three 0)) * 2 ^ 1 \<and>
     max 1 (cap (objs three 0)) * 2 ^ 0 < 5 \<and> max 1 (cap (objs three 0)) * 2 ^ 1 \<le> avail three \<and>
     T_throws three = []"
    by (simp add: three_facts)
  have h': "wf 0 three_failing \<and> (1::nat) < sz (objs three_failing 0) \<and>
     T_throws three_failing = replicate 1 False @ True # []"
    by (simp add: three_failing_facts three_facts)
  have ok: "fst (ensure_capacity 0 5 three) = Returns () \<and>
     objs (snd (ensure_capacity 0 5 three)) 0 = \<lparr>data = 4, sz = 3, cap = 8\<rparr> \<and>
     contents 0 (snd (ensure_capacity 0 5 three)) = [1, 2, 3] \<and>
     trace (snd (ensure_capacity 0 5 three)) =
       trace three @ [Alloc 4 8, Construct 4 0, Construct 4 1, Construct 4 2,
         Destroy 3 0, Destroy 3 1, Destroy 3 2, Free 3]"
    using ensure_capacity_growth [of 0 three 5 1] h
    by (simp add: Let_def three_facts upt_rec)
  have "\<forall>i rest. i < 3 \<and> [False, True] = replicate i False @ True # rest \<longrightarrow>
     fst (ensure_capacity 0 5 three_failing) = Throws T_exception \<and>
     objs (snd (ensure_capacity 0 5 three_failing)) = objs three_failing \<and>
     blocks (snd (ensure_capacity 0 5 three_failing)) = (blocks three_failing)(4 := None) \<and>
     contents 0 (snd (ensure_capacity 0 5 three_failing)) = [1, 2, 3] \<and>
     trace (snd (ensure_capacity 0 5 three_failing)) =
       trace three_failing @ Alloc 4 8 # map (Construct 4) [0..<i] @ map (Destroy 4) [0..<i] @ [Free 4]"
    using ensure_capacity_growth [of 0 three_failing 5 1]
    by (simp add: Let_def three_failing_facts three_facts)
  from this [rule_format, of 1 "[]"]
  have bad: "fst (ensure_capacity 0 5 three_failing) = Throws T_exception \<and>
     objs (snd (ensure_capacity 0 5 three_failing)) = objs three_failing \<and>
     blocks (snd (ensure_capacity 0 5 three_failing)) = (blocks three_failing)(4 := None) \<and>
     contents 0 (snd (ensure_capacity 0 5 three_failing)) = [1, 2, 3] \<and>
     trace (snd (ensure_capacity 0 5 three_failing)) =
       trace three_failing @ [Alloc 4 8, Construct 4 0, Destroy 4 0, Free 4]"
    by simp
  from h h' ok bad show ?thesis by blast
qed

subsection \<open>Insertion and erasure through an iterator\<close>

text \<open>
  Claim C6. \<open>insert(iterator, v)\<close> throws \<open>invalid_iterator\<close> exactly when the iterator's
  owner is not this vector. It accepts the end iterator (index \<open>sz\<close>): that call throws
  neither \<open>invalid_iterator\<close> nor \<open>index_out_of_bound\<close>, and it returns an iterator to
  \<open>sz\<close> on a well-formed vector when neither the element type nor the allocator fails.
  \<open>erase(iterator)\<close> throws \<open>invalid_iterator\<close>, leaving the world unchanged, when the
  owner is not this vector or the index is at least \<open>sz\<close>, and only then; so it rejects
  the end iterator.
\<close>

theorem iterator_checks:
  "(fst (insert_it this pos val w) = Throws invalid_iterator) = (owner pos \<noteq> Some this) \<and>
   fst (insert_it this \<lparr>owner = Some this, idx = sz (objs w this)\<rparr> val w) \<noteq> Throws invalid_iterator \<and>
   fst (insert_it this \<lparr>owner = Some this, idx = sz (objs w this)\<rparr> val w) \<noteq> Throws index_out_of_bound \<and>
   (wf this w \<and> T_throws w = [] \<and>
    (sz (objs w this) = cap (objs w this) \<longrightarrow> max 1 (2 * cap (objs w this)) \<le> avail w) \<longrightarrow>
      fst (insert_it this \<lparr>owner = Some this, idx = sz (objs w this)\<rparr> (Outside x) w) =
        Returns \<lparr>owner = Some this, idx = sz (objs w this)\<rparr>) \<and>
   (fst (erase_it this pos w) = Throws invalid_iterator) =
      (owner pos \<noteq> Some this \<or> sz (objs w this) \<le> idx pos) \<and>
   (owner pos \<noteq> Some this \<or> sz (objs w this) \<le> idx pos \<longrightarrow>
      erase_it this pos w = (Throws invalid_iterator, w)) \<and>
   erase_it this \<lparr>owner = Some this, idx = sz (objs w this)\<rparr> w = (Throws invalid_iterator, w)"
proof -
  have ins: "fst (insert_idx this ind v w) \<noteq> Throws invalid_iterator" for ind v
  proof (cases "ind \<le> sz (objs w this)")
    case True
    show ?thesis using insert_idx_throws [OF _ True, of v invalid_iterator] by auto
  next
    case False
    then show ?thesis by (simp add: insert_idx_def throw_def)
  qed
  have ins_end: "fst (insert_idx this (sz (objs w this)) v w) \<noteq> Throws index_out_of_bound" for v
    using insert_idx_throws [of this "sz (objs w this)" v w index_out_of_bound] by auto
  have 1: "(fst (insert_it this pos val w) = Throws invalid_iterator) = (owner pos \<noteq> Some this)"
    using ins by (simp add: insert_it_def throw_def)
  have 2: "fst (insert_it this \<lparr>owner = Some this, idx = sz (objs w this)\<rparr> val w) \<noteq> Throws invalid_iterator"
    using ins by (simp add: insert_it_def)
  have 3: "fst (insert_it this \<lparr>owner = Some this, idx = sz (objs w this)\<rparr> val w) \<noteq> Throws index_out_of_bound"
    using ins_end by (simp add: insert_it_def)
  have 4: "wf this w \<and> T_throws w = [] \<and>
    (sz (objs w this) = cap (objs w this) \<longrightarrow> max 1 (2 * cap (objs w this)) \<le> avail w) \<longrightarrow>
      fst (insert_it this \<lparr>owner = Some this, idx = sz (objs w this)\<rparr> (Outside x) w) =
        Returns \<lparr>owner = Some this, idx = sz (objs w this)\<rparr>"
  proof
    assume a: "wf this w \<and> T_throws w = [] \<and>
      (sz (objs w this) = cap (objs w this) \<longrightarrow> max 1 (2 * cap (objs w this)) \<le> avail w)"
    then have av: "sz (objs w this) = cap (objs w this) \<Longrightarrow> max 1 (2 * cap (objs w this)) \<le> avail w"
      by blast
    from a have wf: "wf this w" and nt: "T_throws w = []" by blast+
    show "fst (insert_it this \<lparr>owner = Some this, idx = sz (objs w this)\<rparr> (Outside x) w) =
        Returns \<lparr>owner = Some this, idx = sz (objs w this)\<rparr>"
      using insert_idx_ok(1) [OF wf nt av order_refl, of x] by (simp add: insert_it_def)
  qed
  have 6: "owner pos \<noteq> Some this \<or> sz (objs w this) \<le> idx pos \<longrightarrow>
      erase_it this pos w = (Throws invalid_iterator, w)"
    by (auto simp: erase_it_def throw_def)
  have 5: "(fst (erase_it this pos w) = Throws invalid_iterator) =
      (owner pos \<noteq> Some this \<or> sz (objs w this) \<le> idx pos)"
  proof
    assume t: "fst (erase_it this pos w) = Throws invalid_iterator"
    show "owner pos \<noteq> Some this \<or> sz (objs w this) \<le> idx pos"
    proof (rule ccontr)
      assume "\<not> (owner pos \<noteq> Some this \<or> sz (objs w this) \<le> idx pos)"
      then have "owner pos = Some this" and "idx pos < sz (objs w this)" by auto
      from erase_it_throws [OF t this] show False by simp
    qed
  next
    assume "owner pos \<noteq> Some this \<or> sz (objs w this) \<le> idx pos"
    with 6 show "fst (erase_it this pos w) = Throws invalid_iterator" by simp
  qed
  have 7: "erase_it this \<lparr>owner = Some this, idx = sz (objs w this)\<rparr> w = (Throws invalid_iterator, w)"
    by (simp add: erase_it_def throw_def)
  from 1 2 3 4 5 6 7 show ?thesis by blast
qed

theorem iterator_checks_witness:
  "wf 0 three \<and> T_throws three = [] \<and> sz (objs three 0) \<noteq> cap (objs three 0) \<and>
   fst (insert_it 0 \<lparr>owner = Some 0, idx = 3\<rparr> (Outside 9) three) = Returns \<lparr>owner = Some 0, idx = 3\<rparr> \<and>
   owner \<lparr>owner = Some 1, idx = 0\<rparr> \<noteq> Some (0::nat) \<and>
   fst (insert_it 0 \<lparr>owner = Some 1, idx = 0\<rparr> (Outside 9) three) = Throws invalid_iterator \<and>
   erase_it 0 \<lparr>owner = Some 1, idx = 0\<rparr> three = (Throws invalid_iterator, three) \<and>
   erase_it 0 \<lparr>owner = Some 0, idx = 3\<rparr> three = (Throws invalid_iterator, three)"
proof -
  have h: "wf 0 three \<and> T_throws three = [] \<and> sz (objs three 0) \<noteq> cap (objs three 0)"
    by (simp add: three_facts)
  show ?thesis
    using iterator_checks [of 0 "\<lparr>owner = Some 1, idx = 0\<rparr>" "Outside 9" three 9] h
    by (simp add: three_facts)
qed

subsection \<open>Raw allocation\<close>



subsection \<open>Copy construction and copy assignment\<close>

text \<open>
  Claim C5. Copy construction from a well-formed vector (another object; no copy throws;
  the allocator has storage for \<open>sz\<close> elements) returns with the new vector holding
  the same elements in a buffer of its own: its capacity and its size are the source's
  size, not the source's capacity; its buffer is the block just allocated, which is not
  the source's (for an empty source there is no buffer at all: null, capacity zero);
  the source is unchanged. Copy assignment \<open>this = other\<close> constructs the local copy
  \<open>tmp\<close> first and swaps afterwards, so whenever it throws, whatever the exception, the
  fields of the target, the block of its buffer and hence its elements are as before
  the call.
\<close>

theorem copy_construct_and_assign:
  "(wf other w \<and> this \<noteq> other \<and> T_throws w = [] \<and> sz (objs w other) \<le> avail w \<longrightarrow>
      (let n = sz (objs w other);
           w' = snd (vector_copy this other w)
       in fst (vector_copy this other w) = Returns () \<and>
          contents this w' = contents other w \<and>
          sz (objs w' this) = n \<and> cap (objs w' this) = n \<and> wf this w' \<and>
          data (objs w' this) = (if n = 0 then 0 else Suc (last_ptr w)) \<and>
          (n \<noteq> 0 \<longrightarrow> data (objs w' this) \<noteq> data (objs w other)) \<and>
          objs w' other = objs w other \<and> contents other w' = contents other w \<and> wf other w')) \<and>
   (this \<noteq> other \<and> tmp \<noteq> this \<and> wf this w \<and>
    fst (operator_assign this other tmp w) = Throws e \<longrightarrow>
      (let w' = snd (operator_assign this other tmp w)
       in objs w' this = objs w this \<and>
          blocks w' (data (objs w this)) = blocks w (data (objs w this)) \<and>
          contents this w' = contents this w \<and> wf this w'))"
proof (intro conjI impI)
  assume a: "wf other w \<and> this \<noteq> other \<and> T_throws w = [] \<and> sz (objs w other) \<le> avail w"
  then have wf: "wf other w" and ne: "this \<noteq> other" and nt: "T_throws w = []"
    and av: "sz (objs w other) \<le> avail w" by blast+
  note r = vector_copy_ok [OF wf ne nt av]
  have dn: "data (objs w other) \<noteq> Suc (last_ptr w)" using wf by (simp add: wf_def)
  have o: "objs (snd (vector_copy this other w)) other = objs w other"
    using r(2) ne by simp
  have b: "blocks (snd (vector_copy this other w)) (data (objs w other)) = blocks w (data (objs w other))"
    using r(5) dn by simp
  have c: "contents other (snd (vector_copy this other w)) = contents other w"
    by (rule contents_cong [OF o b])
  have w: "wf other (snd (vector_copy this other w))"
    by (rule wf_cong [OF wf o b r(6)])
  show "let n = sz (objs w other);
           w' = snd (vector_copy this other w)
       in fst (vector_copy this other w) = Returns () \<and>
          contents this w' = contents other w \<and>
          sz (objs w' this) = n \<and> cap (objs w' this) = n \<and> wf this w' \<and>
          data (objs w' this) = (if n = 0 then 0 else Suc (last_ptr w)) \<and>
          (n \<noteq> 0 \<longrightarrow> data (objs w' this) \<noteq> data (objs w other)) \<and>
          objs w' other = objs w other \<and> contents other w' = contents other w \<and> wf other w'"
    using r(1,2,3,4) dn o c w by (simp add: Let_def)
next
  assume a: "this \<noteq> other \<and> tmp \<noteq> this \<and> wf this w \<and>
    fst (operator_assign this other tmp w) = Throws e"
  then have ne: "this \<noteq> other" and tn: "tmp \<noteq> this" and wf: "wf this w"
    and t: "fst (operator_assign this other tmp w) = Throws e" by blast+
  have eq: "operator_assign this other tmp w = vector_copy tmp other w"
    by (rule operator_assign_throws [OF ne t])
  have dn: "data (objs w this) \<noteq> Suc (last_ptr w)" using wf by (simp add: wf_def)
  note f = vector_copy_frame [of tmp other w "fst (vector_copy tmp other w)" "snd (vector_copy tmp other w)"]
  have o: "objs (snd (operator_assign this other tmp w)) this = objs w this"
    using f tn by (simp add: eq)
  have b: "blocks (snd (operator_assign this other tmp w)) (data (objs w this)) = blocks w (data (objs w this))"
    using f dn by (simp add: eq)
  have l: "last_ptr w \<le> last_ptr (snd (operator_assign this other tmp w))"
    using f by (simp add: eq)
  show "let w' = snd (operator_assign this other tmp w)
       in objs w' this = objs w this \<and>
          blocks w' (data (objs w this)) = blocks w (data (objs w this)) \<and>
          contents this w' = contents this w \<and> wf this w'"
    using o b contents_cong [OF o b] wf_cong [OF wf o b l] by (simp add: Let_def)
qed

theorem copy_construct_and_assign_witness:
  "wf 0 three \<and> (2::nat) \<noteq> 0 \<and> T_throws three = [] \<and> sz (objs three 0) \<le> avail three \<and>
   fst (vector_copy 2 0 three) = Returns () \<and>
   contents 2 (snd (vector_copy 2 0 three)) = [1, 2, 3] \<and>
   objs (snd (vector_copy 2 0 three)) 2 = \<lparr>data = 4, sz = 3, cap = 3\<rparr> \<and>
   objs (snd (vector_copy 2 0 three)) 0 = \<lparr>data = 3, sz = 3, cap = 4\<rparr> \<and>
   contents 0 (snd (vector_copy 2 0 three)) = [1, 2, 3] \<and>
   (3::nat) \<noteq> 2 \<and> wf 2 two_failing \<and> fst (operator_assign 2 0 3 two_failing) = Throws T_exception \<and>
   objs (snd (operator_assign 2 0 3 two_failing)) 2 = \<lparr>data = 4, sz = 1, cap = 1\<rparr> \<and>
   blocks (snd (operator_assign 2 0 3 two_failing)) 4 = Some [Some 7] \<and>
   contents 2 (snd (operator_assign 2 0 3 two_failing)) = [7]"
proof -
  have h: "wf 0 three \<and> (2::nat) \<noteq> 0 \<and> T_throws three = [] \<and> sz (objs three 0) \<le> avail three"
    by (simp add: three_facts)
  have h': "(2::nat) \<noteq> 0 \<and> (3::nat) \<noteq> 2 \<and> wf 2 two_failing \<and>
      fst (operator_assign 2 0 3 two_failing) = Throws T_exception"
    by (simp add: two_failing_facts assign_two_failing)
  have ok: "fst (vector_copy 2 0 three) = Returns () \<and>
     contents 2 (snd (vector_copy 2 0 three)) = [1, 2, 3] \<and>
     objs (snd (vector_copy 2 0 three)) 2 = \<lparr>data = 4, sz = 3, cap = 3\<rparr> \<and>
     objs (snd (vector_copy 2 0 three)) 0 = \<lparr>data = 3, sz = 3, cap = 4\<rparr> \<and>
     contents 0 (snd (vector_copy 2 0 three)) = [1, 2, 3]"
    using copy_construct_and_assign [of 0 three 2] h
    by (simp add: Let_def three_facts vector.equality)
  have bad: "objs (snd (operator_assign 2 0 3 two_failing)) 2 = \<lparr>data = 4, sz = 1, cap = 1\<rparr> \<and>
     blocks (snd (operator_assign 2 0 3 two_failing)) 4 = Some [Some 7] \<and>
     contents 2 (snd (operator_assign 2 0 3 two_failing)) = [7]"
    using copy_construct_and_assign [of 0 two_failing 2 3 T_exception] h'
    by (simp add: Let_def two_failing_facts)
  from h h' ok bad show ?thesis by blast
qed

text \<open>
  Claim C4, as amended. A client program declares vectors (each at the next free
  address, empty or as a copy of an earlier one) and calls \<open>push_back\<close>, \<open>pop_back\<close>,
  \<open>insert\<close>, \<open>erase\<close>, \<open>clear\<close>, \<open>swap\<close> and copy assignment on them, with any
  arguments, any allocator budget and any schedule of throwing element operations; a
  call that throws is caught and the program goes on. In every world such a program
  reaches from the empty world, every vector it has declared satisfies
  \<open>0 \<le> sz \<le> cap\<close> and has a null buffer exactly when \<open>cap = 0\<close>. If the program has no
  copy construction and no copy assignment, \<open>cap\<close> is zero or a power of two.
\<close>

theorem reachable_invariants:
  "run cs (0, initial_world a plan) = Some (k, w) \<and> x < k \<longrightarrow>
     sz (objs w x) \<le> cap (objs w x) \<and>
     (data (objs w x) = 0) = (cap (objs w x) = 0) \<and>
     (\<not> list_ex copies cs \<longrightarrow> cap (objs w x) = 0 \<or> (\<exists>j. cap (objs w x) = 2 ^ j))"
proof
  assume a: "run cs (0, initial_world a plan) = Some (k, w) \<and> x < k"
  then have r: "run cs (0, initial_world a plan) = Some (k, w)" by blast
  have i0: "\<forall>y. fields_ok (objs (initial_world a plan :: 'a world) y)"
    by (simp add: initial_world_def fields_ok_def)
  have p0: "\<forall>y. pow2_cap (objs (initial_world a plan :: 'a world) y)"
    by (simp add: initial_world_def pow2_cap_def)
  from run_inv [OF r i0] have "fields_ok (objs w x)" by blast
  moreover have "\<not> list_ex copies cs \<longrightarrow> pow2_cap (objs w x)"
    using run_pow2 [OF r _ i0 p0] by blast
  ultimately show "sz (objs w x) \<le> cap (objs w x) \<and>
     (data (objs w x) = 0) = (cap (objs w x) = 0) \<and>
     (\<not> list_ex copies cs \<longrightarrow> cap (objs w x) = 0 \<or> (\<exists>j. cap (objs w x) = 2 ^ j))"
    by (simp add: fields_ok_def pow2_cap_def)
qed

theorem reachable_invariants_witness:
  "run push_program (0, initial_world 100 []) = Some (1, three) \<and> (0::nat) < 1 \<and>
   \<not> list_ex copies push_program \<and>
   sz (objs three 0) \<le> cap (objs three 0) \<and>
   (data (objs three 0) = 0) = (cap (objs three 0) = 0) \<and>
   (cap (objs three 0) = 0 \<or> (\<exists>j. cap (objs three 0) = 2 ^ j))"
proof -
  have h: "run push_program (0, initial_world 100 []) = Some (1, three) \<and> (0::nat) < 1 \<and>
     \<not> list_ex copies push_program"
    by (simp add: push_program_run) (simp add: push_program_def)
  from reachable_invariants [of push_program 100 "[]" 1 three 0] h show ?thesis by blast
qed

text \<open>
  The claim as stated gives every reachable vector a capacity that is zero or a power
  of two. A copy takes the size of its source as its capacity: the copy of a vector
  holding \<open>[1, 2, 3]\<close> has \<open>cap = 3\<close>.
\<close>

theorem copy_capacity_not_power_of_two:
  "run copy_program (0, initial_world 100 []) = Some (2, three_copied) \<and>
   objs three_copied 1 = \<lparr>data = 4, sz = 3, cap = 3\<rparr> \<and>
   \<not> pow2_cap (objs three_copied 1)"
  using three_not_power_of_two
  by (simp add: copy_program_run three_copied_def pow2_cap_def)

end
